theory Spec2Isabelle
  imports Complex_Main "HOL-Library.AList"
begin

section \<open>JSON Schema inference of generate-schema.js\<close>

text \<open>
  The development embeds the two functions \<^verbatim>\<open>inferSchema\<close> and \<^verbatim>\<open>unifySchemas\<close> of
  \<^verbatim>\<open>src/generate-schema.js\<close>.  Input values live in a store, because the cycle guard of
  \<^verbatim>\<open>inferSchema\<close> works on object identity; schema fragments are never mutated after they
  are built, so they are plain values.
\<close>

subsection \<open>JavaScript values and the store\<close>

type_synonym addr = nat

text \<open>
  A JavaScript number: a finite double is one of the rationals, the three others are
  \<^verbatim>\<open>NaN\<close>, \<^verbatim>\<open>Infinity\<close> and \<^verbatim>\<open>-Infinity\<close>.
\<close>

datatype number = Fin rat | NaN | PosInfinity | NegInfinity

text \<open>
  \<open>JRef a\<close> is a reference to the array or object stored at address \<open>a\<close>;
  \<open>JOther\<close> stands for every value whose \<^verbatim>\<open>typeof\<close> is none of
  \<^verbatim>\<open>object\<close>, \<^verbatim>\<open>string\<close>, \<^verbatim>\<open>number\<close>, \<^verbatim>\<open>boolean\<close>
  (\<^verbatim>\<open>undefined\<close>, a function, a symbol, a bigint).
\<close>

datatype jsval = JNull | JBool bool | JNum number | JStr string | JRef addr | JOther

text \<open>
  What an address holds: an array with its elements (dense, as \<^verbatim>\<open>JSON.parse\<close> builds
  them), or an object given by what \<^verbatim>\<open>Object.entries\<close> returns for it: its own
  enumerable string-keyed properties in iteration order, each a plain data property (reading
  one runs no code).  Every address holds something, so that no reference dangles; an
  address of no interest holds an empty object.
\<close>

datatype hobj = HArr "jsval list" | HObj "(string \<times> jsval) list"

text \<open>
  The state \<^verbatim>\<open>inferSchema\<close> runs in: the store of the input graph and the
  \<^verbatim>\<open>WeakSet\<close> \<^verbatim>\<open>visited\<close>, a set of object identities.
\<close>

record state =
  heap :: "addr \<Rightarrow> hobj"
  visited :: "addr set"

subsection \<open>Schema fragments\<close>

text \<open>
  A fragment is a JavaScript object with some of the six own properties below; a field that
  is absent (\<^verbatim>\<open>undefined\<close> when read) is \<open>None\<close>.  The value of \<^verbatim>\<open>properties\<close> is
  itself an object: the list of its own properties, here in insertion order (JavaScript
  lists integer-like keys first; the properties below read \<^verbatim>\<open>properties\<close> as a map or
  as a set of keys, and the order of \<^verbatim>\<open>required\<close>, an array, is exact).
\<close>

datatype schema = Schema
  (type: "string option")
  (format: "string option")
  (items: "schema option")
  (properties: "(string \<times> schema) list option")
  (required: "string list option")
  (anyOf: "schema list option")

text \<open>The object literals of the source.\<close>

definition empty_schema :: schema where
  "empty_schema = Schema None None None None None None"

definition typed :: "string \<Rightarrow> schema" where
  "typed t = Schema (Some t) None None None None None"

definition array_schema :: "schema \<Rightarrow> schema" where
  "array_schema its = Schema (Some ''array'') None (Some its) None None None"

definition object_schema :: "(string \<times> schema) list \<Rightarrow> string list \<Rightarrow> schema" where
  "object_schema props req = Schema (Some ''object'') None None (Some props) (Some req) None"

definition anyOf_schema :: "schema list \<Rightarrow> schema" where
  "anyOf_schema schemas = Schema None None None None None (Some schemas)"

text \<open>\<^verbatim>\<open>schema.format = f\<close> and \<^verbatim>\<open>delete baseSchema.type\<close>.\<close>

fun set_format :: "string \<Rightarrow> schema \<Rightarrow> schema" where
  "set_format f (Schema t fm it ps rq ao) = Schema t (Some f) it ps rq ao"

fun delete_type :: "schema \<Rightarrow> schema" where
  "delete_type (Schema t fm it ps rq ao) = Schema None fm it ps rq ao"

text \<open>
  The assignment \<^verbatim>\<open>obj[key] = v\<close> on an ordinary object whose value \<open>v\<close> is an object
  (every fragment is one): the key \<^verbatim>\<open>__proto__\<close> reaches the setter inherited from
  \<^verbatim>\<open>Object.prototype\<close>, which replaces the prototype and creates no own property; every
  other key is overwritten in place or appended.
\<close>

definition js_set :: "(string \<times> schema) list \<Rightarrow> string \<Rightarrow> schema \<Rightarrow> (string \<times> schema) list" where
  "js_set obj key v = (if key = ''__proto__'' then obj else AList.update key v obj)"

text \<open>\<^verbatim>\<open>Object.assign(target, source)\<close>: one assignment per own property of the source.\<close>

definition Object_assign ::
  "(string \<times> schema) list \<Rightarrow> (string \<times> schema) list \<Rightarrow> (string \<times> schema) list" where
  "Object_assign target source = foldl (\<lambda>t (k, v). js_set t k v) target source"

text \<open>
  A \<^verbatim>\<open>Set\<close> keeps its elements in insertion order: \<open>Set_add\<close> is \<^verbatim>\<open>add\<close>,
  \<open>new_Set\<close> is the constructor applied to an array, and the list itself is what
  \<^verbatim>\<open>Array.from\<close> or the spread syntax reads back.
\<close>

definition Set_add :: "'a list \<Rightarrow> 'a \<Rightarrow> 'a list" where
  "Set_add s x = (if x \<in> set s then s else s @ [x])"

definition new_Set :: "'a list \<Rightarrow> 'a list" where
  "new_Set xs = foldl Set_add [] xs"

subsection \<open>unifySchemas\<close>

text \<open>
  \<^verbatim>\<open>schemas[0]\<close> is read only where the array is not empty, and \<^verbatim>\<open>types[0]\<close> only
  where \<^verbatim>\<open>types\<close> has one element; a fragment without a \<^verbatim>\<open>type\<close> contributes
  \<^verbatim>\<open>undefined\<close>, here \<open>None\<close>, to the set of types.  The body of the \<^verbatim>\<open>schemas.forEach\<close> callback of the object branch, on the pair
  (\<^verbatim>\<open>mergedProperties\<close>, \<^verbatim>\<open>allRequired\<close>).
\<close>

definition merge_step ::
  "(string \<times> schema) list \<times> string list \<Rightarrow> schema \<Rightarrow> (string \<times> schema) list \<times> string list" where
  "merge_step acc s =
     (let mergedProperties = (case properties s of
                                None \<Rightarrow> fst acc
                              | Some ps \<Rightarrow> Object_assign (fst acc) ps);
          allRequired = (case required s of
                           None \<Rightarrow> snd acc
                         | Some rq \<Rightarrow> foldl Set_add (snd acc) rq)
      in (mergedProperties, allRequired))"

definition unifySchemas :: "schema list \<Rightarrow> schema" where
  "unifySchemas schemas =
     (case schemas of
        [] \<Rightarrow> empty_schema
      | s0 # _ \<Rightarrow>
          (case new_Set (map type schemas) of
             [t] \<Rightarrow>
               (let baseSchema = delete_type s0 in
                if t = Some ''object'' then
                  (let (mergedProperties, allRequired) = foldl merge_step ([], []) schemas
                   in object_schema mergedProperties allRequired)
                else baseSchema)
           | _ \<Rightarrow> anyOf_schema schemas))"

subsection \<open>String format detection\<close>

text \<open>
  \<^verbatim>\<open>new URL\<close> and \<^verbatim>\<open>Date.parse\<close> belong to the host runtime, not to this
  repository: they are parameters.  \<open>URL_throws s\<close> says that \<^verbatim>\<open>new URL(s)\<close> throws,
  \<open>Date_parse_isNaN s\<close> that \<^verbatim>\<open>isNaN(Date.parse(s))\<close> holds.
\<close>

record host =
  URL_throws :: "string \<Rightarrow> bool"
  Date_parse_isNaN :: "string \<Rightarrow> bool"

text \<open>\<^verbatim>\<open>value.includes(sub)\<close>.\<close>

fun starts_with :: "string \<Rightarrow> string \<Rightarrow> bool" where
  "starts_with s [] = True"
| "starts_with [] (c # sub) = False"
| "starts_with (d # s) (c # sub) = (d = c \<and> starts_with s sub)"

fun String_includes :: "string \<Rightarrow> string \<Rightarrow> bool" where
  "String_includes [] sub = starts_with [] sub"
| "String_includes (d # s) sub = (starts_with (d # s) sub \<or> String_includes s sub)"

text \<open>
  The two regular expressions use only \<^verbatim>\<open>\d\<close> and literal characters.  \<open>match_atoms\<close>
  consumes a sequence of such atoms at the start of the input and returns the rest.
\<close>

datatype atom = Digit | Lit char

definition is_digit :: "char \<Rightarrow> bool" where
  "is_digit c = (c \<in> set ''0123456789'')"

fun match_atoms :: "atom list \<Rightarrow> string \<Rightarrow> string option" where
  "match_atoms [] s = Some s"
| "match_atoms (a # as) [] = None"
| "match_atoms (Digit # as) (c # s) = (if is_digit c then match_atoms as s else None)"
| "match_atoms (Lit l # as) (c # s) = (if c = l then match_atoms as s else None)"

text \<open>\<^verbatim>\<open>\d{4}-\d{2}-\d{2}\<close> and \<^verbatim>\<open>\d{4}-\d{2}-\d{2}T\d{2}:\d{2}:\d{2}\<close>.\<close>

definition date_atoms :: "atom list" where
  "date_atoms = replicate 4 Digit @ [Lit CHR ''-''] @ replicate 2 Digit @ [Lit CHR ''-'']
                @ replicate 2 Digit"

definition date_time_atoms :: "atom list" where
  "date_time_atoms = date_atoms @ [Lit CHR ''T''] @ replicate 2 Digit @ [Lit CHR '':'']
                     @ replicate 2 Digit @ [Lit CHR '':''] @ replicate 2 Digit"

text \<open>
  \<^verbatim>\<open>value.match(/^...$/)\<close> is truthy when the atoms consume the whole input (without the
  \<^verbatim>\<open>m\<close> flag \<^verbatim>\<open>$\<close> is the end of the input), \<^verbatim>\<open>value.match(/^.../)\<close> when they
  consume a prefix.
\<close>

definition match_date :: "string \<Rightarrow> bool" where
  "match_date s = (match_atoms date_atoms s = Some [])"

definition match_date_time :: "string \<Rightarrow> bool" where
  "match_date_time s = (match_atoms date_time_atoms s \<noteq> None)"

text \<open>The string branch of \<^verbatim>\<open>inferSchema\<close>: the \<^verbatim>\<open>try\<close>, and the chain in its \<^verbatim>\<open>catch\<close>.\<close>

definition infer_string :: "host \<Rightarrow> string \<Rightarrow> schema" where
  "infer_string H s =
     (let schema = typed ''string'' in
      if \<not> URL_throws H s then set_format ''uri'' schema
      else if String_includes s ''@'' \<and> String_includes s ''.'' then set_format ''email'' schema
      else if match_date s \<and> \<not> Date_parse_isNaN H s then set_format ''date'' schema
      else if match_date_time s \<and> \<not> Date_parse_isNaN H s then set_format ''date-time'' schema
      else schema)"

subsection \<open>inferSchema\<close>

text \<open>\<^verbatim>\<open>Number.isInteger\<close>.\<close>

fun Number_isInteger :: "number \<Rightarrow> bool" where
  "Number_isInteger (Fin q) = (of_int \<lfloor>q\<rfloor> = q)"
| "Number_isInteger _ = False"

text \<open>
  The only way \<^verbatim>\<open>inferSchema\<close> can raise: the engine's
  \<^verbatim>\<open>RangeError: Maximum call stack size exceeded\<close>.
\<close>

datatype js_error = RangeError

text \<open>
  \<open>inferSchema H n \<sigma> value\<close> runs \<^verbatim>\<open>inferSchema(value, visited)\<close> in state \<open>\<sigma>\<close> on a
  call stack with room for \<open>n\<close> nested calls of \<^verbatim>\<open>inferSchema\<close>, and returns the
  fragment or the error together with the state it leaves.  A recursion that no stack can
  hold is one that gives \<open>Inl RangeError\<close> for every \<open>n\<close>.  \<open>inferItems\<close> is
  \<^verbatim>\<open>value.map(item => inferSchema(item, visited))\<close>, \<open>inferEntries\<close> the \<^verbatim>\<open>for\<close> loop
  over \<^verbatim>\<open>Object.entries(value)\<close>, which updates the pair of \<^verbatim>\<open>schema.properties\<close> and
  \<^verbatim>\<open>schema.required\<close>.  No statement of the source writes to the input graph; the error
  leaves \<^verbatim>\<open>visited\<close> as it is at the throw (there is no \<^verbatim>\<open>finally\<close>).
\<close>

fun inferSchema :: "host \<Rightarrow> nat \<Rightarrow> state \<Rightarrow> jsval \<Rightarrow> (js_error + schema) \<times> state"
  and inferItems :: "host \<Rightarrow> nat \<Rightarrow> state \<Rightarrow> jsval list \<Rightarrow> (js_error + schema list) \<times> state"
  and inferEntries :: "host \<Rightarrow> nat \<Rightarrow> state \<Rightarrow> (string \<times> jsval) list
        \<Rightarrow> (string \<times> schema) list \<times> string list
        \<Rightarrow> (js_error + (string \<times> schema) list \<times> string list) \<times> state"
  where
  "inferSchema H 0 \<sigma> value = (Inl RangeError, \<sigma>)"
| "inferSchema H (Suc n) \<sigma> value =
     (case value of
        JNull \<Rightarrow> (Inr (typed ''null''), \<sigma>)
      | JRef a \<Rightarrow>
          (case heap \<sigma> a of
             HArr elems \<Rightarrow>
               if length elems = 0 then (Inr (array_schema empty_schema), \<sigma>)
               else
                 (case inferItems H n \<sigma> elems of
                    (Inl e, \<sigma>') \<Rightarrow> (Inl e, \<sigma>')
                  | (Inr itemSchemas, \<sigma>') \<Rightarrow>
                      (Inr (array_schema (unifySchemas itemSchemas)), \<sigma>'))
           | HObj entries \<Rightarrow>
               if a \<in> visited \<sigma> then (Inr (typed ''object''), \<sigma>)
               else
                 (case inferEntries H n (\<sigma>\<lparr>visited := insert a (visited \<sigma>)\<rparr>) entries ([], []) of
                    (Inl e, \<sigma>') \<Rightarrow> (Inl e, \<sigma>')
                  | (Inr (props, req), \<sigma>') \<Rightarrow>
                      (Inr (object_schema props req), \<sigma>'\<lparr>visited := visited \<sigma>' - {a}\<rparr>)))
      | JStr s \<Rightarrow> (Inr (infer_string H s), \<sigma>)
      | JNum x \<Rightarrow> (Inr (typed (if Number_isInteger x then ''integer'' else ''number'')), \<sigma>)
      | JBool b \<Rightarrow> (Inr (typed ''boolean''), \<sigma>)
      | JOther \<Rightarrow> (Inr (typed ''string''), \<sigma>))"
| "inferItems H n \<sigma> [] = (Inr [], \<sigma>)"
| "inferItems H n \<sigma> (item # rest) =
     (case inferSchema H n \<sigma> item of
        (Inl e, \<sigma>') \<Rightarrow> (Inl e, \<sigma>')
      | (Inr s, \<sigma>') \<Rightarrow>
          (case inferItems H n \<sigma>' rest of
             (Inl e, \<sigma>'') \<Rightarrow> (Inl e, \<sigma>'')
           | (Inr ss, \<sigma>'') \<Rightarrow> (Inr (s # ss), \<sigma>'')))"
| "inferEntries H n \<sigma> [] acc = (Inr acc, \<sigma>)"
| "inferEntries H n \<sigma> ((key, val) # rest) acc =
     (case inferSchema H n \<sigma> val of
        (Inl e, \<sigma>') \<Rightarrow> (Inl e, \<sigma>')
      | (Inr s, \<sigma>') \<Rightarrow> inferEntries H n \<sigma>' rest (js_set (fst acc) key s, snd acc @ [key]))"

text \<open>
  The call \<^verbatim>\<open>inferSchema(data)\<close> of \<^verbatim>\<open>generateSchema\<close>: the default argument is a new,
  empty \<^verbatim>\<open>WeakSet\<close>.
\<close>

definition inferSchema_default :: "host \<Rightarrow> nat \<Rightarrow> (addr \<Rightarrow> hobj) \<Rightarrow> jsval \<Rightarrow> (js_error + schema) \<times> state" where
  "inferSchema_default H n h value = inferSchema H n \<lparr>heap = h, visited = {}\<rparr> value"

subsection \<open>Concrete inputs\<close>

text \<open>
  A store given by a list of allocated addresses (every other address holds an empty
  object), and a host for running the examples: its \<^verbatim>\<open>URL\<close> accepts the strings that
  start with \<^verbatim>\<open>https://\<close>, its \<^verbatim>\<open>Date.parse\<close> the strings of one of the two date shapes.
\<close>

definition store :: "(addr \<times> hobj) list \<Rightarrow> addr \<Rightarrow> hobj" where
  "store al a = (case map_of al a of Some ob \<Rightarrow> ob | None \<Rightarrow> HObj [])"

definition example_host :: host where
  "example_host = \<lparr>URL_throws = (\<lambda>s. \<not> starts_with s ''https://''),
                    Date_parse_isNaN = (\<lambda>s. \<not> match_date s \<and> \<not> match_date_time s)\<rparr>"

subsection \<open>Predicates of the properties\<close>

text \<open>
  Where \<^verbatim>\<open>anyOf\<close> may stand in a fragment.  \<open>anyOf_placed is_items s\<close> reads the
  fragment \<open>s\<close> at a position that is the value of an \<^verbatim>\<open>items\<close> field (\<open>is_items\<close>) or
  any other position (the top, a value of \<^verbatim>\<open>properties\<close>, an alternative of an
  \<^verbatim>\<open>anyOf\<close>): a fragment with an \<^verbatim>\<open>anyOf\<close> field stands only as the value of an
  \<^verbatim>\<open>items\<close> field, and a fragment with an \<^verbatim>\<open>items\<close> field that is not itself such a
  value is an array fragment.
\<close>

fun anyOf_placed :: "bool \<Rightarrow> schema \<Rightarrow> bool" where
  "anyOf_placed is_items (Schema t fm it ps rq ao) =
     ((ao \<noteq> None \<longrightarrow> is_items)
      \<and> (it \<noteq> None \<longrightarrow> is_items \<or> t = Some ''array'')
      \<and> (case ao of None \<Rightarrow> True | Some alts \<Rightarrow> \<forall>s\<in>set alts. anyOf_placed False s)
      \<and> (case ps of None \<Rightarrow> True | Some props \<Rightarrow> \<forall>s\<in>snd ` set props. anyOf_placed False s)
      \<and> (case it of None \<Rightarrow> True | Some s \<Rightarrow> anyOf_placed True s))"

text \<open>
  The words of the specification about the object merge of \<^verbatim>\<open>unifySchemas\<close>.  The
  properties of a fragment as a map and its required list (nothing when the field is
  absent); \<open>first_seen\<close> removes duplicates and keeps every element at its first
  occurrence; the union of maps in which a later one overwrites an earlier one is
  \<open>foldl (++) Map.empty\<close>.
\<close>

definition properties_of :: "schema \<Rightarrow> (string \<rightharpoonup> schema)" where
  "properties_of s = (case properties s of None \<Rightarrow> Map.empty | Some ps \<Rightarrow> map_of ps)"

definition required_of :: "schema \<Rightarrow> string list" where
  "required_of s = (case required s of None \<Rightarrow> [] | Some rq \<Rightarrow> rq)"

definition first_seen :: "'a list \<Rightarrow> 'a list" where
  "first_seen xs = rev (remdups (rev xs))"

text \<open>
  The \<^verbatim>\<open>properties\<close> object of a fragment is an object as \<^verbatim>\<open>inferSchema\<close> and
  \<^verbatim>\<open>unifySchemas\<close> build it: its own keys are distinct, and none of them is
  \<^verbatim>\<open>__proto__\<close> (an assignment never creates that key).
\<close>

definition own_keys_ok :: "schema \<Rightarrow> bool" where
  "own_keys_ok s = (case properties s of
                      None \<Rightarrow> True
                    | Some ps \<Rightarrow> distinct (map fst ps) \<and> ''__proto__'' \<notin> fst ` set ps)"

text \<open>
  The words of the specification about the format of a string.  The literal pattern
  \<^verbatim>\<open>YYYY-MM-DD\<close>: ten characters, digits but for the two hyphens; the literal pattern
  \<^verbatim>\<open>YYYY-MM-DDTHH:MM:SS\<close> as a prefix; and the precedence of the four tests, in which
  "parses as an absolute URI" is the host's \<^verbatim>\<open>URL\<close> and "is a valid date" the host's
  \<^verbatim>\<open>Date.parse\<close>.
\<close>

definition is_YYYY_MM_DD :: "string \<Rightarrow> bool" where
  "is_YYYY_MM_DD s =
     (length s = 10
      \<and> (\<forall>i\<in>{0, 1, 2, 3, 5, 6, 8, 9}. is_digit (s ! i))
      \<and> s ! 4 = CHR ''-'' \<and> s ! 7 = CHR ''-'')"

definition has_date_time_prefix :: "string \<Rightarrow> bool" where
  "has_date_time_prefix s =
     (19 \<le> length s
      \<and> is_YYYY_MM_DD (take 10 s)
      \<and> s ! 10 = CHR ''T''
      \<and> (\<forall>i\<in>{11, 12, 14, 15, 17, 18}. is_digit (s ! i))
      \<and> s ! 13 = CHR '':'' \<and> s ! 16 = CHR '':'')"

definition spec_format :: "host \<Rightarrow> string \<Rightarrow> string option" where
  "spec_format H s =
     (if \<not> URL_throws H s then Some ''uri''
      else if CHR ''@'' \<in> set s \<and> CHR ''.'' \<in> set s then Some ''email''
      else if is_YYYY_MM_DD s \<and> \<not> Date_parse_isNaN H s then Some ''date''
      else if has_date_time_prefix s \<and> \<not> Date_parse_isNaN H s then Some ''date-time''
      else None)"

text \<open>What one atom of a regular expression accepts.\<close>

fun atom_matches :: "atom \<Rightarrow> char \<Rightarrow> bool" where
  "atom_matches Digit c = is_digit c"
| "atom_matches (Lit l) c = (c = l)"

text \<open>
  The invariant of object fragments: \<^verbatim>\<open>properties\<close> and \<^verbatim>\<open>required\<close> are present
  together, \<^verbatim>\<open>required\<close> has no duplicates and lists exactly the own keys of
  \<^verbatim>\<open>properties\<close>; and so in every fragment nested in this one.
\<close>

fun required_matches :: "schema \<Rightarrow> bool" where
  "required_matches (Schema t fm it ps rq ao) =
     ((case ps of
         None \<Rightarrow> rq = None
       | Some props \<Rightarrow>
           (case rq of
              None \<Rightarrow> False
            | Some req \<Rightarrow> distinct req \<and> set req = fst ` set props))
      \<and> (case ps of None \<Rightarrow> True | Some props \<Rightarrow> \<forall>s\<in>snd ` set props. required_matches s)
      \<and> (case it of None \<Rightarrow> True | Some s \<Rightarrow> required_matches s)
      \<and> (case ao of None \<Rightarrow> True | Some alts \<Rightarrow> \<forall>s\<in>set alts. required_matches s))"

text \<open>
  A store in which the own keys of every object are distinct (as they are in every
  JavaScript object) and none of them is \<^verbatim>\<open>__proto__\<close>.
\<close>

definition heap_keys_ok :: "(addr \<Rightarrow> hobj) \<Rightarrow> bool" where
  "heap_keys_ok h =
     (\<forall>a es. h a = HObj es \<longrightarrow> distinct (map fst es) \<and> ''__proto__'' \<notin> fst ` set es)"

text \<open>
  For termination: the non-empty objects of a store that are not yet visited, and a store
  in which the references from an array to an array go down a rank (no cycle runs through
  arrays only, and arrays are nested in arrays to a finite depth).
\<close>

definition live :: "(addr \<Rightarrow> hobj) \<Rightarrow> addr set \<Rightarrow> addr set" where
  "live h V = {a. (\<exists>es. h a = HObj es \<and> es \<noteq> []) \<and> a \<notin> V}"

definition arrays_ranked :: "(addr \<Rightarrow> hobj) \<Rightarrow> (addr \<Rightarrow> nat) \<Rightarrow> bool" where
  "arrays_ranked h rk =
     (\<forall>a xs b ys. h a = HArr xs \<and> JRef b \<in> set xs \<and> h b = HArr ys \<longrightarrow> rk b < rk a)"

section \<open>Properties\<close>

subsection \<open>Sets in insertion order\<close>

lemma set_foldl_Set_add: "set (foldl Set_add acc xs) = set acc \<union> set xs"
  by (induction xs arbitrary: acc) (auto simp: Set_add_def)

lemma distinct_foldl_Set_add: "distinct acc \<Longrightarrow> distinct (foldl Set_add acc xs)"
  by (induction xs arbitrary: acc) (auto simp: Set_add_def)

lemma set_new_Set: "set (new_Set xs) = set xs"
  by (simp add: new_Set_def set_foldl_Set_add)

lemma distinct_new_Set: "distinct (new_Set xs)"
  by (simp add: new_Set_def distinct_foldl_Set_add)

lemma length_new_Set: "length (new_Set xs) = card (set xs)"
  using distinct_card [OF distinct_new_Set, of xs] by (simp add: set_new_Set)

lemma distinct_singleton_set: "distinct l \<Longrightarrow> set l = {t} \<Longrightarrow> l = [t]"
proof (cases l)
  case Nil
  assume "set l = {t}" with Nil show ?thesis by simp
next
  case (Cons x r)
  assume d: "distinct l" and s: "set l = {t}"
  from s Cons have x: "x = t" by auto
  from d Cons x have "t \<notin> set r" by simp
  moreover from s Cons have "set r \<subseteq> {t}" by auto
  ultimately have "r = []" by (cases r) auto
  then show ?thesis using Cons x by simp
qed

lemma new_Set_single:
  assumes "xs \<noteq> []" and "\<forall>x\<in>set xs. x = t"
  shows "new_Set xs = [t]"
proof -
  have "set (new_Set xs) = {t}" using assms by (cases xs) (auto simp: set_new_Set)
  then show ?thesis using distinct_new_Set by (rule distinct_singleton_set [rotated])
qed

lemma unifySchemas_same_type:
  assumes "schemas \<noteq> []" and "\<forall>s\<in>set schemas. type s = Some t" and "t \<noteq> ''object''"
  shows "unifySchemas schemas = delete_type (hd schemas) \<and> type (unifySchemas schemas) = None
         \<and> unifySchemas schemas \<noteq> hd schemas"
proof -
  obtain s0 rest where sch: "schemas = s0 # rest" using assms(1) by (cases schemas) auto
  have "new_Set (map type schemas) = [Some t]"
    using assms by (intro new_Set_single) auto
  then have u: "unifySchemas schemas = delete_type s0"
    using assms(3) by (simp add: unifySchemas_def sch)
  have t0: "type s0 = Some t" using assms(2) sch by simp
  have "type (delete_type s0) = None" by (cases s0) simp
  then show ?thesis using u t0 sch by auto
qed

lemma array_cycle_overflows:
  "heap \<sigma> a = HArr [JRef a] \<Longrightarrow> inferSchema H n \<sigma> (JRef a) = (Inl RangeError, \<sigma>)"
  by (induction n) auto

lemma unify_mixed:
  assumes "1 < card (set (map type schemas))"
  shows "unifySchemas schemas = anyOf_schema schemas"
proof -
  have "length (new_Set (map type schemas)) > 1" using assms by (simp only: length_new_Set)
  then obtain x y r where "new_Set (map type schemas) = x # y # r"
    by (cases "new_Set (map type schemas)"; cases "tl (new_Set (map type schemas))") auto
  moreover have "schemas \<noteq> []" using assms by auto
  ultimately show ?thesis by (auto simp: unifySchemas_def split: list.splits)
qed

subsection \<open>The state across a call\<close>

lemma inferItems_heap:
  assumes "\<And>\<sigma> v r \<sigma>'. inferSchema H n \<sigma> v = (r, \<sigma>') \<Longrightarrow> heap \<sigma>' = heap \<sigma>"
  shows "inferItems H n \<sigma> vs = (r, \<sigma>') \<Longrightarrow> heap \<sigma>' = heap \<sigma>"
proof (induction vs arbitrary: \<sigma> r \<sigma>')
  case Nil
  then show ?case by simp
next
  case (Cons item rest)
  obtain r1 \<sigma>1 where 1: "inferSchema H n \<sigma> item = (r1, \<sigma>1)" by (cases "inferSchema H n \<sigma> item")
  obtain r2 \<sigma>2 where 2: "inferItems H n \<sigma>1 rest = (r2, \<sigma>2)" by (cases "inferItems H n \<sigma>1 rest")
  have "heap \<sigma>1 = heap \<sigma>" using assms 1 by blast
  moreover have "heap \<sigma>2 = heap \<sigma>1" using Cons.IH 2 by blast
  ultimately show ?case using Cons.prems 1 2 by (auto split: sum.splits)
qed

lemma inferEntries_heap:
  assumes "\<And>\<sigma> v r \<sigma>'. inferSchema H n \<sigma> v = (r, \<sigma>') \<Longrightarrow> heap \<sigma>' = heap \<sigma>"
  shows "inferEntries H n \<sigma> es acc = (r, \<sigma>') \<Longrightarrow> heap \<sigma>' = heap \<sigma>"
proof (induction es arbitrary: \<sigma> acc r \<sigma>')
  case Nil
  then show ?case by simp
next
  case (Cons e rest)
  obtain key val where e: "e = (key, val)" by (cases e)
  obtain r1 \<sigma>1 where 1: "inferSchema H n \<sigma> val = (r1, \<sigma>1)" by (cases "inferSchema H n \<sigma> val")
  have h1: "heap \<sigma>1 = heap \<sigma>" using assms 1 by blast
  show ?case
  proof (cases r1)
    case (Inl err)
    then show ?thesis using Cons.prems 1 e h1 by simp
  next
    case (Inr s)
    then have "inferEntries H n \<sigma>1 rest (js_set (fst acc) key s, snd acc @ [key]) = (r, \<sigma>')"
      using Cons.prems 1 e by simp
    then have "heap \<sigma>' = heap \<sigma>1" by (rule Cons.IH)
    then show ?thesis using h1 by simp
  qed
qed

lemma inferSchema_heap: "inferSchema H n \<sigma> v = (r, \<sigma>') \<Longrightarrow> heap \<sigma>' = heap \<sigma>"
proof (induction n arbitrary: \<sigma> v r \<sigma>')
  case 0
  then show ?case by simp
next
  case (Suc n)
  have items: "\<And>\<sigma> vs r \<sigma>'. inferItems H n \<sigma> vs = (r, \<sigma>') \<Longrightarrow> heap \<sigma>' = heap \<sigma>"
    by (rule inferItems_heap) (rule Suc.IH)
  have entries: "\<And>\<sigma> es acc r \<sigma>'. inferEntries H n \<sigma> es acc = (r, \<sigma>') \<Longrightarrow> heap \<sigma>' = heap \<sigma>"
    by (rule inferEntries_heap) (rule Suc.IH)
  show ?case
  proof (cases v)
    case (JRef a)
    show ?thesis
    proof (cases "heap \<sigma> a")
      case (HArr elems)
      obtain r1 \<sigma>1 where 1: "inferItems H n \<sigma> elems = (r1, \<sigma>1)" by (cases "inferItems H n \<sigma> elems")
      have "heap \<sigma>1 = heap \<sigma>" using items 1 by blast
      then show ?thesis using Suc.prems JRef HArr 1 by (auto split: if_splits sum.splits)
    next
      case (HObj entries')
      let ?\<sigma>a = "\<sigma>\<lparr>visited := insert a (visited \<sigma>)\<rparr>"
      obtain r1 \<sigma>1 where 1: "inferEntries H n ?\<sigma>a entries' ([], []) = (r1, \<sigma>1)"
        by (cases "inferEntries H n ?\<sigma>a entries' ([], [])")
      have "heap \<sigma>1 = heap ?\<sigma>a" using entries 1 by blast
      then show ?thesis using Suc.prems JRef HObj 1 by (auto split: if_splits sum.splits)
    qed
  qed (use Suc.prems in auto)
qed

lemma inferItems_restores:
  assumes "\<And>\<sigma> v s \<sigma>'. inferSchema H n \<sigma> v = (Inr s, \<sigma>') \<Longrightarrow> \<sigma>' = \<sigma>"
  shows "inferItems H n \<sigma> vs = (Inr ss, \<sigma>') \<Longrightarrow> \<sigma>' = \<sigma>"
proof (induction vs arbitrary: ss \<sigma>')
  case Nil
  then show ?case by simp
next
  case (Cons item rest)
  obtain r1 \<sigma>1 where 1: "inferSchema H n \<sigma> item = (r1, \<sigma>1)" by (cases "inferSchema H n \<sigma> item")
  then obtain s where r1: "r1 = Inr s" using Cons.prems by (cases r1) auto
  then have s1: "\<sigma>1 = \<sigma>" using assms 1 by blast
  obtain r2 \<sigma>2 where 2: "inferItems H n \<sigma> rest = (r2, \<sigma>2)" by (cases "inferItems H n \<sigma> rest")
  then obtain ss' where r2: "r2 = Inr ss'" using Cons.prems 1 r1 s1 by (cases r2) auto
  then have "\<sigma>2 = \<sigma>" using Cons.IH 2 by blast
  then show ?case using Cons.prems 1 2 r1 r2 s1 by simp
qed

lemma inferEntries_restores:
  assumes "\<And>\<sigma> v s \<sigma>'. inferSchema H n \<sigma> v = (Inr s, \<sigma>') \<Longrightarrow> \<sigma>' = \<sigma>"
  shows "inferEntries H n \<sigma> es acc = (Inr acc', \<sigma>') \<Longrightarrow> \<sigma>' = \<sigma>"
proof (induction es arbitrary: acc \<sigma>')
  case Nil
  then show ?case by simp
next
  case (Cons e rest)
  obtain key val where e: "e = (key, val)" by (cases e)
  obtain r1 \<sigma>1 where 1: "inferSchema H n \<sigma> val = (r1, \<sigma>1)" by (cases "inferSchema H n \<sigma> val")
  then obtain s where r1: "r1 = Inr s" using Cons.prems e by (cases r1) auto
  then have s1: "\<sigma>1 = \<sigma>" using assms 1 by blast
  have "inferEntries H n \<sigma> rest (js_set (fst acc) key s, snd acc @ [key]) = (Inr acc', \<sigma>')"
    using Cons.prems 1 e r1 s1 by simp
  then show ?case by (rule Cons.IH)
qed

lemma inferSchema_restores: "inferSchema H n \<sigma> v = (Inr s, \<sigma>') \<Longrightarrow> \<sigma>' = \<sigma>"
proof (induction n arbitrary: \<sigma> v s \<sigma>')
  case 0
  then show ?case by simp
next
  case (Suc n)
  have items: "\<And>\<sigma> vs ss \<sigma>'. inferItems H n \<sigma> vs = (Inr ss, \<sigma>') \<Longrightarrow> \<sigma>' = \<sigma>"
    by (rule inferItems_restores) (rule Suc.IH)
  have entries: "\<And>\<sigma> es acc acc' \<sigma>'. inferEntries H n \<sigma> es acc = (Inr acc', \<sigma>') \<Longrightarrow> \<sigma>' = \<sigma>"
    by (rule inferEntries_restores) (rule Suc.IH)
  show ?case
  proof (cases v)
    case (JRef a)
    show ?thesis
    proof (cases "heap \<sigma> a")
      case (HArr elems)
      obtain r1 \<sigma>1 where 1: "inferItems H n \<sigma> elems = (r1, \<sigma>1)" by (cases "inferItems H n \<sigma> elems")
      show ?thesis
      proof (cases r1)
        case (Inl e)
        then show ?thesis using Suc.prems JRef HArr 1 by (auto split: if_splits)
      next
        case (Inr ss)
        then have "\<sigma>1 = \<sigma>" using items 1 by blast
        then show ?thesis using Suc.prems JRef HArr 1 Inr by (auto split: if_splits)
      qed
    next
      case (HObj entries')
      let ?\<sigma>a = "\<sigma>\<lparr>visited := insert a (visited \<sigma>)\<rparr>"
      obtain r1 \<sigma>1 where 1: "inferEntries H n ?\<sigma>a entries' ([], []) = (r1, \<sigma>1)"
        by (cases "inferEntries H n ?\<sigma>a entries' ([], [])")
      show ?thesis
      proof (cases "a \<in> visited \<sigma>")
        case True
        then show ?thesis using Suc.prems JRef HObj by simp
      next
        case False
        show ?thesis
        proof (cases r1)
          case (Inl e)
          then show ?thesis using Suc.prems JRef HObj 1 False by auto
        next
          case (Inr acc')
          then have "\<sigma>1 = ?\<sigma>a" using entries 1 by blast
          then show ?thesis using Suc.prems JRef HObj 1 Inr False
            by (auto simp: Diff_insert_absorb split: prod.splits)
        qed
      qed
    qed
  qed (use Suc.prems in auto)
qed

subsection \<open>The regular expressions, unfolded\<close>

lemma date_atoms_unfold:
  "date_atoms = [Digit, Digit, Digit, Digit, Lit CHR ''-'', Digit, Digit, Lit CHR ''-'', Digit, Digit]"
  by (simp add: date_atoms_def eval_nat_numeral)

lemma date_time_atoms_unfold:
  "date_time_atoms = [Digit, Digit, Digit, Digit, Lit CHR ''-'', Digit, Digit, Lit CHR ''-'', Digit, Digit,
                      Lit CHR ''T'', Digit, Digit, Lit CHR '':'', Digit, Digit, Lit CHR '':'', Digit, Digit]"
  by (simp add: date_time_atoms_def date_atoms_unfold eval_nat_numeral)

subsection \<open>Empty inputs, the input graph, and the results of unifySchemas\<close>

text \<open>
  C8: \<^verbatim>\<open>inferSchema\<close> of an empty array is exactly \<^verbatim>\<open>{type:"array", items:{}}\<close>, in any
  state and on any stack with room for the one call; and \<^verbatim>\<open>unifySchemas\<close> of the empty
  sequence is the empty fragment \<^verbatim>\<open>{}\<close>.
\<close>
theorem C8_empty_array_and_empty_input:
  assumes "heap \<sigma> a = HArr []"
  shows "inferSchema H (Suc n) \<sigma> (JRef a)
           = (Inr (Schema (Some ''array'') None
                     (Some (Schema None None None None None None)) None None None), \<sigma>)
         \<and> unifySchemas [] = Schema None None None None None None"
  using assms by (simp add: array_schema_def empty_schema_def unifySchemas_def)

theorem C8_witness:
  "fst (inferSchema_default example_host 1 (store [(0, HArr [])]) (JRef 0))
     = Inr (Schema (Some ''array'') None (Some (Schema None None None None None None)) None None None)
   \<and> unifySchemas [] = Schema None None None None None None"
  using C8_empty_array_and_empty_input
          [of "\<lparr>heap = store [(0, HArr [])], visited = {}\<rparr>" 0 example_host 0]
  by (simp add: inferSchema_default_def store_def)

text \<open>
  C9: \<^verbatim>\<open>inferSchema\<close> never changes the input graph: the store after the call is the store
  before it, whether the call returns or overflows the stack; and when it returns, the
  whole state, \<^verbatim>\<open>visited\<close> included, is the one it started in.
\<close>
theorem C9_input_graph_unchanged:
  "heap (snd (inferSchema H n \<sigma> value)) = heap \<sigma>
   \<and> (fst (inferSchema H n \<sigma> value) \<noteq> Inl RangeError \<longrightarrow> snd (inferSchema H n \<sigma> value) = \<sigma>)"
proof -
  obtain r \<sigma>' where 1: "inferSchema H n \<sigma> value = (r, \<sigma>')" by (cases "inferSchema H n \<sigma> value")
  have "heap \<sigma>' = heap \<sigma>" using 1 by (rule inferSchema_heap)
  moreover have "\<sigma>' = \<sigma>" if "r \<noteq> Inl RangeError"
  proof -
    from that obtain s where "r = Inr s" by (cases r) (auto intro: js_error.exhaust)
    then show ?thesis using 1 inferSchema_restores by blast
  qed
  ultimately show ?thesis using 1 by simp
qed

theorem C9_witness:
  "snd (inferSchema example_host 2 \<lparr>heap = store [(0, HObj [(''self'', JRef 0)])], visited = {}\<rparr> (JRef 0))
     = \<lparr>heap = store [(0, HObj [(''self'', JRef 0)])], visited = {}\<rparr>"
  using C9_input_graph_unchanged
          [of example_host 2 "\<lparr>heap = store [(0, HObj [(''self'', JRef 0)])], visited = {}\<rparr>" "JRef 0"]
  by (simp add: numeral_2_eq_2 store_def)

text \<open>
  C2 (the array branch has no cycle guard): on an array whose only element is the array
  itself, \<^verbatim>\<open>inferSchema\<close> returns no fragment, whatever the size of the stack: every
  call recurses into the same array until the stack is exhausted.
\<close>
theorem C2_array_cycle_overflows:
  "heap \<sigma> a = HArr [JRef a] \<Longrightarrow> inferSchema H n \<sigma> (JRef a) = (Inl RangeError, \<sigma>)"
  by (rule array_cycle_overflows)

theorem C2_witness:
  "\<forall>n. fst (inferSchema_default example_host n (store [(0, HArr [JRef 0])]) (JRef 0)) = Inl RangeError"
  using C2_array_cycle_overflows
          [of "\<lparr>heap = store [(0, HArr [JRef 0])], visited = {}\<rparr>" 0 example_host]
  by (simp add: inferSchema_default_def store_def)

text \<open>
  C1 (what the code does on fragments of one type that is not \<^verbatim>\<open>object\<close>): the result of
  \<^verbatim>\<open>unifySchemas\<close> is the first fragment with its \<^verbatim>\<open>type\<close> deleted; it has no
  \<^verbatim>\<open>type\<close> and so is never the first fragment as it was given.
\<close>
theorem C1_same_type_loses_type:
  assumes "schemas \<noteq> []" and "\<forall>s\<in>set schemas. type s = Some t" and "t \<noteq> ''object''"
  shows "unifySchemas schemas = delete_type (hd schemas)
         \<and> type (unifySchemas schemas) = None
         \<and> unifySchemas schemas \<noteq> hd schemas"
  using assms by (rule unifySchemas_same_type)

theorem C1_witness:
  "unifySchemas [Schema (Some ''integer'') None None None None None,
                 Schema (Some ''integer'') None None None None None]
     = Schema None None None None None None
   \<and> fst (inferSchema_default example_host 2
            (store [(0, HArr [JNum (Fin 1), JNum (Fin 2)])]) (JRef 0))
     = Inr (Schema (Some ''array'') None (Some (Schema None None None None None None)) None None None)"
  using C1_same_type_loses_type
          [of "[Schema (Some ''integer'') None None None None None,
                Schema (Some ''integer'') None None None None None]" "''integer''"]
  by (simp add: inferSchema_default_def store_def numeral_2_eq_2 typed_def array_schema_def)

text \<open>
  C7: when the fragments carry more than one distinct \<^verbatim>\<open>type\<close>, \<^verbatim>\<open>unifySchemas\<close>
  returns \<^verbatim>\<open>{anyOf: fragments}\<close> with the fragments as given, in their order, duplicates
  kept; hence \<^verbatim>\<open>inferSchema([1, "x"])\<close> is
  \<^verbatim>\<open>{type:"array", items:{anyOf:[{type:"integer"},{type:"string"}]}}\<close> on every host whose
  \<^verbatim>\<open>URL\<close> rejects \<^verbatim>\<open>"x"\<close>.
\<close>
theorem C7_mixed_types_anyOf:
  "(1 < card (type ` set schemas)
      \<longrightarrow> unifySchemas schemas = Schema None None None None None (Some schemas))
   \<and> (URL_throws H ''x'' \<and> h a = HArr [JNum (Fin 1), JStr ''x'']
      \<longrightarrow> fst (inferSchema_default H (Suc (Suc n)) h (JRef a))
          = Inr (Schema (Some ''array'') None
                  (Some (Schema None None None None None
                     (Some [Schema (Some ''integer'') None None None None None,
                            Schema (Some ''string'') None None None None None])))
                  None None None))"
proof (intro conjI impI)
  assume "1 < card (type ` set schemas)"
  then have "1 < card (set (map type schemas))" by simp
  then show "unifySchemas schemas = Schema None None None None None (Some schemas)"
    using unify_mixed by (simp add: anyOf_schema_def)
next
  assume a: "URL_throws H ''x'' \<and> h a = HArr [JNum (Fin 1), JStr ''x'']"
  have t: "card {Some ''integer'', Some ''string''} = 2" by simp
  have u: "unifySchemas [typed ''integer'', typed ''string''] = anyOf_schema [typed ''integer'', typed ''string'']"
    by (rule unify_mixed) (simp add: typed_def)
  have s: "infer_string H ''x'' = typed ''string''"
    using a by (simp add: infer_string_def match_date_def match_date_time_def date_atoms_unfold date_time_atoms_unfold)
  show "fst (inferSchema_default H (Suc (Suc n)) h (JRef a))
          = Inr (Schema (Some ''array'') None
                  (Some (Schema None None None None None
                     (Some [Schema (Some ''integer'') None None None None None,
                            Schema (Some ''string'') None None None None None])))
                  None None None)"
    using a by (simp add: inferSchema_default_def s u) (simp add: typed_def array_schema_def anyOf_schema_def)
qed

theorem C7_witness:
  "unifySchemas [Schema (Some ''integer'') None None None None None,
                 Schema (Some ''string'') None None None None None,
                 Schema (Some ''integer'') None None None None None]
     = Schema None None None None None
         (Some [Schema (Some ''integer'') None None None None None,
                Schema (Some ''string'') None None None None None,
                Schema (Some ''integer'') None None None None None])
   \<and> fst (inferSchema_default example_host 2 (store [(0, HArr [JNum (Fin 1), JStr ''x''])]) (JRef 0))
     = Inr (Schema (Some ''array'') None
                  (Some (Schema None None None None None
                     (Some [Schema (Some ''integer'') None None None None None,
                            Schema (Some ''string'') None None None None None])))
                  None None None)"
proof -
  have c: "card {Some ''integer'', Some ''string'', Some ''integer''} = 2"
    by (simp add: card_insert_if)
  show ?thesis
  using C7_mixed_types_anyOf
          [of "[Schema (Some ''integer'') None None None None None,
                 Schema (Some ''string'') None None None None None,
                 Schema (Some ''integer'') None None None None None]"
              example_host "store [(0, HArr [JNum (Fin 1), JStr ''x''])]" 0 0]
  by (simp add: store_def example_host_def numeral_2_eq_2 c)
qed

subsection \<open>What the two loops compute\<close>

lemma Object_assign_Nil: "Object_assign t [] = t"
  by (simp add: Object_assign_def)

lemma Object_assign_Cons: "Object_assign t ((k, v) # src) = Object_assign (js_set t k v) src"
  by (simp add: Object_assign_def)

lemma inferItems_Inr_iff:
  "inferItems H n \<sigma> vs = (Inr ss, \<sigma>')
     \<longleftrightarrow> \<sigma>' = \<sigma> \<and> list_all2 (\<lambda>v s. inferSchema H n \<sigma> v = (Inr s, \<sigma>)) vs ss"
proof (induction vs arbitrary: ss \<sigma>')
  case Nil
  show ?case by auto
next
  case (Cons item rest)
  obtain r1 \<sigma>1 where 1: "inferSchema H n \<sigma> item = (r1, \<sigma>1)" by (cases "inferSchema H n \<sigma> item")
  show ?case
  proof (cases r1)
    case (Inl e)
    then show ?thesis using 1 by (auto simp: list_all2_Cons1)
  next
    case (Inr s)
    then have s1: "\<sigma>1 = \<sigma>" using 1 inferSchema_restores by blast
    obtain r2 \<sigma>2 where 2: "inferItems H n \<sigma> rest = (r2, \<sigma>2)" by (cases "inferItems H n \<sigma> rest")
    show ?thesis
    proof (cases r2)
      case (Inl e)
      then have "\<not> list_all2 (\<lambda>v s. inferSchema H n \<sigma> v = (Inr s, \<sigma>)) rest ss'" for ss'
        using Cons.IH [of ss' \<sigma>] 2 by auto
      then show ?thesis using 1 2 Inr s1 Inl by (auto simp: list_all2_Cons1)
    next
      case r2: (Inr ss2)
      then have "\<sigma>2 = \<sigma> \<and> list_all2 (\<lambda>v s. inferSchema H n \<sigma> v = (Inr s, \<sigma>)) rest ss2"
        using Cons.IH [of ss2 \<sigma>2] 2 by simp
      moreover have "ss' = ss2" if "list_all2 (\<lambda>v s. inferSchema H n \<sigma> v = (Inr s, \<sigma>)) rest ss'" for ss'
        using Cons.IH [of ss' \<sigma>] 2 r2 that by simp
      ultimately show ?thesis using 1 2 Inr s1 r2 by (auto simp: list_all2_Cons1)
    qed
  qed
qed

lemma inferEntries_Inr_iff:
  "inferEntries H n \<sigma> es acc = (Inr acc', \<sigma>')
     \<longleftrightarrow> \<sigma>' = \<sigma> \<and> (\<exists>ss. list_all2 (\<lambda>e s. inferSchema H n \<sigma> (snd e) = (Inr s, \<sigma>)) es ss
                     \<and> acc' = (Object_assign (fst acc) (zip (map fst es) ss), snd acc @ map fst es))"
proof (induction es arbitrary: acc \<sigma>')
  case Nil
  show ?case by (auto simp: Object_assign_Nil)
next
  case (Cons e rest)
  obtain key val where e: "e = (key, val)" by (cases e)
  obtain r1 \<sigma>1 where 1: "inferSchema H n \<sigma> val = (r1, \<sigma>1)" by (cases "inferSchema H n \<sigma> val")
  show ?case
  proof (cases r1)
    case (Inl err)
    then show ?thesis using 1 e by (auto simp: list_all2_Cons1)
  next
    case (Inr s)
    then have s1: "\<sigma>1 = \<sigma>" using 1 inferSchema_restores by blast
    have step: "inferEntries H n \<sigma> (e # rest) acc
                  = inferEntries H n \<sigma> rest (js_set (fst acc) key s, snd acc @ [key])"
      using 1 e Inr s1 by simp
    show ?thesis
      unfolding step Cons.IH
      using 1 Inr s1 e by (auto simp: list_all2_Cons1 Object_assign_Cons)
  qed
qed


lemma inferSchema_array_iff:
  assumes "heap \<sigma> a = HArr elems" and "elems \<noteq> []"
  shows "inferSchema H (Suc n) \<sigma> (JRef a) = (Inr s, \<sigma>')
           \<longleftrightarrow> \<sigma>' = \<sigma> \<and> (\<exists>ss. list_all2 (\<lambda>v s. inferSchema H n \<sigma> v = (Inr s, \<sigma>)) elems ss
                           \<and> s = array_schema (unifySchemas ss))"
proof -
  obtain r1 \<sigma>1 where 1: "inferItems H n \<sigma> elems = (r1, \<sigma>1)" by (cases "inferItems H n \<sigma> elems")
  show ?thesis
  proof (cases r1)
    case (Inl e)
    then have "\<not> list_all2 (\<lambda>v s. inferSchema H n \<sigma> v = (Inr s, \<sigma>)) elems ss" for ss
      using inferItems_Inr_iff [of H n \<sigma> elems ss \<sigma>] 1 by auto
    then show ?thesis using assms 1 Inl by auto
  next
    case (Inr ss1)
    then have a: "\<sigma>1 = \<sigma> \<and> list_all2 (\<lambda>v s. inferSchema H n \<sigma> v = (Inr s, \<sigma>)) elems ss1"
      using inferItems_Inr_iff [of H n \<sigma> elems ss1 \<sigma>1] 1 by simp
    have "ss = ss1" if "list_all2 (\<lambda>v s. inferSchema H n \<sigma> v = (Inr s, \<sigma>)) elems ss" for ss
      using inferItems_Inr_iff [of H n \<sigma> elems ss \<sigma>] 1 Inr that by simp
    then show ?thesis using assms 1 Inr a by auto
  qed
qed

lemma inferSchema_object_iff:
  assumes "heap \<sigma> a = HObj es" and "a \<notin> visited \<sigma>"
  shows "inferSchema H (Suc n) \<sigma> (JRef a) = (Inr s, \<sigma>')
           \<longleftrightarrow> \<sigma>' = \<sigma> \<and>
               (\<exists>ss. list_all2 (\<lambda>e s. inferSchema H n (\<sigma>\<lparr>visited := insert a (visited \<sigma>)\<rparr>) (snd e)
                                         = (Inr s, \<sigma>\<lparr>visited := insert a (visited \<sigma>)\<rparr>)) es ss
                    \<and> s = object_schema (Object_assign [] (zip (map fst es) ss)) (map fst es))"
proof -
  let ?\<sigma>a = "\<sigma>\<lparr>visited := insert a (visited \<sigma>)\<rparr>"
  have undo: "(?\<sigma>a)\<lparr>visited := visited ?\<sigma>a - {a}\<rparr> = \<sigma>"
    using assms(2) by (simp add: Diff_insert_absorb)
  obtain r1 \<sigma>1 where 1: "inferEntries H n ?\<sigma>a es ([], []) = (r1, \<sigma>1)"
    by (cases "inferEntries H n ?\<sigma>a es ([], [])")
  show ?thesis
  proof (cases r1)
    case (Inl e)
    then have "\<not> list_all2 (\<lambda>e s. inferSchema H n ?\<sigma>a (snd e) = (Inr s, ?\<sigma>a)) es ss" for ss
      using inferEntries_Inr_iff [of H n ?\<sigma>a es "([], [])" _ ?\<sigma>a] 1 by auto
    then show ?thesis using assms 1 Inl by auto
  next
    case (Inr acc1)
    then have a: "\<sigma>1 = ?\<sigma>a" and "\<exists>ss. list_all2 (\<lambda>e s. inferSchema H n ?\<sigma>a (snd e) = (Inr s, ?\<sigma>a)) es ss
                     \<and> acc1 = (Object_assign [] (zip (map fst es) ss), map fst es)"
      using inferEntries_Inr_iff [of H n ?\<sigma>a es "([], [])" acc1 \<sigma>1] 1 by auto
    then obtain ss1 where ss1: "list_all2 (\<lambda>e s. inferSchema H n ?\<sigma>a (snd e) = (Inr s, ?\<sigma>a)) es ss1"
      and acc1: "acc1 = (Object_assign [] (zip (map fst es) ss1), map fst es)" by blast
    have uniq: "ss = ss1" if "list_all2 (\<lambda>e s. inferSchema H n ?\<sigma>a (snd e) = (Inr s, ?\<sigma>a)) es ss" for ss
    proof -
      have "list_all2 (=) ss ss1"
        using that ss1
        by (induction es arbitrary: ss ss1) (auto simp: list_all2_Cons1)
      then show ?thesis by (simp add: list_all2_eq)
    qed
    have res: "inferSchema H (Suc n) \<sigma> (JRef a)
                 = (Inr (object_schema (Object_assign [] (zip (map fst es) ss1)) (map fst es)), \<sigma>)"
      using assms 1 Inr a acc1 undo by simp
    show ?thesis
    proof
      assume "inferSchema H (Suc n) \<sigma> (JRef a) = (Inr s, \<sigma>')"
      then have "\<sigma>' = \<sigma>"
        and "s = object_schema (Object_assign [] (zip (map fst es) ss1)) (map fst es)"
        unfolding res by simp_all
      then show "\<sigma>' = \<sigma> \<and>
               (\<exists>ss. list_all2 (\<lambda>e s. inferSchema H n ?\<sigma>a (snd e) = (Inr s, ?\<sigma>a)) es ss
                    \<and> s = object_schema (Object_assign [] (zip (map fst es) ss)) (map fst es))"
        using ss1 by blast
    next
      assume r: "\<sigma>' = \<sigma> \<and>
               (\<exists>ss. list_all2 (\<lambda>e s. inferSchema H n ?\<sigma>a (snd e) = (Inr s, ?\<sigma>a)) es ss
                    \<and> s = object_schema (Object_assign [] (zip (map fst es) ss)) (map fst es))"
      then obtain ss where "list_all2 (\<lambda>e s. inferSchema H n ?\<sigma>a (snd e) = (Inr s, ?\<sigma>a)) es ss"
        and s: "s = object_schema (Object_assign [] (zip (map fst es) ss)) (map fst es)" by blast
      then have "ss = ss1" using uniq by blast
      then show "inferSchema H (Suc n) \<sigma> (JRef a) = (Inr s, \<sigma>')"
        unfolding res using s r by simp
    qed
  qed
qed

subsection \<open>Values of a merged object\<close>

lemma js_set_values: "snd ` set (js_set obj k v) \<subseteq> insert v (snd ` set obj)"
proof -
  have "snd ` set (AList.update k v obj) \<subseteq> insert v (snd ` set obj)"
    by (induction obj) auto
  then show ?thesis by (simp add: js_set_def subset_insertI)
qed

lemma Object_assign_values: "snd ` set (Object_assign t src) \<subseteq> snd ` set t \<union> snd ` set src"
proof (induction src arbitrary: t)
  case Nil
  show ?case by (simp add: Object_assign_Nil)
next
  case (Cons e src)
  obtain k v where e: "e = (k, v)" by (cases e)
  have "snd ` set (Object_assign (js_set t k v) src) \<subseteq> snd ` set (js_set t k v) \<union> snd ` set src"
    by (rule Cons.IH)
  then show ?case using js_set_values [of t k v] by (auto simp: e Object_assign_Cons)
qed

lemma merge_step_values:
  "snd ` set (fst (foldl merge_step acc schemas))
     \<subseteq> snd ` set (fst acc) \<union> (\<Union>s\<in>set schemas. case properties s of None \<Rightarrow> {} | Some ps \<Rightarrow> snd ` set ps)"
proof (induction schemas arbitrary: acc)
  case Nil
  show ?case by simp
next
  case (Cons s schemas)
  let ?vals = "\<lambda>s. case properties s of None \<Rightarrow> {} | Some ps \<Rightarrow> snd ` set ps"
  have 1: "snd ` set (fst (merge_step acc s)) \<subseteq> snd ` set (fst acc) \<union> ?vals s"
    using Object_assign_values by (auto simp: merge_step_def split: option.splits)
  have 2: "snd ` set (fst (foldl merge_step (merge_step acc s) schemas))
             \<subseteq> snd ` set (fst (merge_step acc s)) \<union> (\<Union>s\<in>set schemas. ?vals s)"
    by (rule Cons.IH)
  have "snd ` set (fst (foldl merge_step (merge_step acc s) schemas))
             \<subseteq> (snd ` set (fst acc) \<union> ?vals s) \<union> (\<Union>s\<in>set schemas. ?vals s)"
    by (rule subset_trans [OF 2]) (use 1 in blast)
  then show ?case by (simp add: Un_assoc)
qed

lemma list_all2_results:
  assumes "list_all2 (\<lambda>v s. f v = (Inr s, \<sigma>)) vs ss"
    and "\<And>v s. f v = (Inr s, \<sigma>) \<Longrightarrow> Q s"
  shows "\<forall>s\<in>set ss. Q s"
  using assms by (induction rule: list_all2_induct) auto

subsection \<open>Where anyOf can stand\<close>

lemma placed_mono: "anyOf_placed False s \<Longrightarrow> anyOf_placed b s"
  by (cases s) auto

lemma placed_delete_type: "anyOf_placed True s \<Longrightarrow> anyOf_placed True (delete_type s)"
  by (cases s) auto

lemma placed_props: "anyOf_placed b s \<Longrightarrow> properties s = Some ps \<Longrightarrow> v \<in> snd ` set ps \<Longrightarrow> anyOf_placed False v"
  by (cases s) auto

lemma unifySchemas_anyOf:
  assumes "schemas \<noteq> []" and "\<And>t. new_Set (map type schemas) \<noteq> [t]"
  shows "unifySchemas schemas = anyOf_schema schemas"
proof -
  obtain s0 rest where sch: "schemas = s0 # rest" using assms(1) by (cases schemas) auto
  show ?thesis
  proof (cases "new_Set (map type schemas)")
    case Nil
    then show ?thesis unfolding unifySchemas_def sch by simp
  next
    case (Cons t r)
    then obtain t' r' where "r = t' # r'" using assms(2) by (cases r) auto
    then show ?thesis using Cons unfolding unifySchemas_def sch by simp
  qed
qed

lemma unifySchemas_base:
  assumes "schemas = s0 # rest" and "new_Set (map type schemas) = [t]" and "t \<noteq> Some ''object''"
  shows "unifySchemas schemas = delete_type s0"
  using assms(2,3) unfolding unifySchemas_def assms(1) by simp

lemma unifySchemas_object:
  assumes "new_Set (map type schemas) = [Some ''object'']"
  shows "unifySchemas schemas = object_schema (fst (foldl merge_step ([], []) schemas))
                                              (snd (foldl merge_step ([], []) schemas))"
proof -
  obtain s0 rest where sch: "schemas = s0 # rest"
    using assms by (cases schemas) (auto simp: new_Set_def)
  show ?thesis using assms unfolding unifySchemas_def sch by (simp add: case_prod_beta)
qed

lemma placed_unifySchemas:
  assumes "\<forall>s\<in>set schemas. anyOf_placed False s"
  shows "anyOf_placed True (unifySchemas schemas)"
proof (cases schemas)
  case Nil
  then show ?thesis by (simp add: unifySchemas_def empty_schema_def)
next
  case (Cons s0 rest)
  show ?thesis
  proof (cases "\<exists>t. new_Set (map type schemas) = [t]")
    case False
    then have "unifySchemas schemas = anyOf_schema schemas"
      using Cons by (intro unifySchemas_anyOf) auto
    then show ?thesis using assms by (simp add: anyOf_schema_def)
  next
    case True
    then obtain t where t: "new_Set (map type schemas) = [t]" by blast
    show ?thesis
    proof (cases "t = Some ''object''")
      case False
      have "unifySchemas schemas = delete_type s0"
        using Cons t False by (rule unifySchemas_base)
      moreover have "anyOf_placed True s0" using assms Cons by (simp add: placed_mono)
      ultimately show ?thesis by (simp add: placed_delete_type)
    next
      case True
      let ?mp = "fst (foldl merge_step ([], []) schemas)"
      let ?rq = "snd (foldl merge_step ([], []) schemas)"
      have u: "unifySchemas schemas = object_schema ?mp ?rq"
        using t True by (intro unifySchemas_object) simp
      have sub: "snd ` set ?mp
                   \<subseteq> (\<Union>s\<in>set schemas. case properties s of None \<Rightarrow> {} | Some ps \<Rightarrow> snd ` set ps)"
        using merge_step_values [of "([], [])" schemas] by simp
      have "anyOf_placed False v" if "v \<in> snd ` set ?mp" for v
      proof -
        from that sub obtain s where s: "s \<in> set schemas"
          and v: "v \<in> (case properties s of None \<Rightarrow> {} | Some ps \<Rightarrow> snd ` set ps)" by blast
        then obtain ps where "properties s = Some ps" and "v \<in> snd ` set ps"
          by (cases "properties s") auto
        then show ?thesis using assms s placed_props by blast
      qed
      then show ?thesis by (simp add: u object_schema_def)
    qed
  qed
qed

lemma type_infer_string: "type (infer_string H s) = Some ''string''"
  by (simp add: infer_string_def typed_def Let_def)

lemma placed_infer_string: "anyOf_placed False (infer_string H s)"
  by (simp add: infer_string_def typed_def Let_def)

lemma inferSchema_not_ref:
  assumes "\<And>a. v \<noteq> JRef a" and "inferSchema H (Suc n) \<sigma> v = (Inr s, \<sigma>')"
  shows "(\<exists>t. s = typed t) \<or> (\<exists>str. s = infer_string H str)"
  using assms by (cases v) auto

lemma inferSchema_visited_object:
  assumes "heap \<sigma> a = HObj es" and "a \<in> visited \<sigma>"
  shows "inferSchema H (Suc n) \<sigma> (JRef a) = (Inr (typed ''object''), \<sigma>)"
  using assms by simp

lemma inferSchema_empty_array:
  assumes "heap \<sigma> a = HArr []"
  shows "inferSchema H (Suc n) \<sigma> (JRef a) = (Inr (array_schema empty_schema), \<sigma>)"
  using assms by simp


lemma typed_ok: "type (typed t) \<noteq> None \<and> anyOf_placed False (typed t)"
  by (simp add: typed_def)

lemma inferSchema_typed_placed:
  "inferSchema H n \<sigma> v = (Inr s, \<sigma>') \<Longrightarrow> type s \<noteq> None \<and> anyOf_placed False s"
proof (induction n arbitrary: \<sigma> v s \<sigma>')
  case 0
  then show ?case by simp
next
  case (Suc n)
  have IH: "anyOf_placed False x" if "inferSchema H n \<tau> w = (Inr x, \<tau>)" for \<tau> w x
    using Suc.IH [OF that] by simp
  show ?case
  proof (cases "\<exists>a. v = JRef a")
    case False
    then have "(\<exists>t. s = typed t) \<or> (\<exists>str. s = infer_string H str)"
      using Suc.prems by (intro inferSchema_not_ref) auto
    then show ?thesis using typed_ok type_infer_string placed_infer_string by auto
  next
    case True
    then obtain a where v: "v = JRef a" by blast
    have run: "inferSchema H (Suc n) \<sigma> (JRef a) = (Inr s, \<sigma>')" using Suc.prems v by simp
    show ?thesis
    proof (cases "heap \<sigma> a")
      case (HArr elems)
      show ?thesis
      proof (cases "elems = []")
        case True
        then have "s = array_schema empty_schema"
          using run inferSchema_empty_array [of \<sigma> a H n] HArr by simp
        then show ?thesis by (simp add: array_schema_def empty_schema_def)
      next
        case False
        from run have "\<sigma>' = \<sigma> \<and> (\<exists>ss. list_all2 (\<lambda>v s. inferSchema H n \<sigma> v = (Inr s, \<sigma>)) elems ss
                           \<and> s = array_schema (unifySchemas ss))"
          by (simp only: inferSchema_array_iff [OF HArr False])
        then obtain ss where ss: "list_all2 (\<lambda>v s. inferSchema H n \<sigma> v = (Inr s, \<sigma>)) elems ss"
          and s: "s = array_schema (unifySchemas ss)"
          by blast
        have "\<forall>x\<in>set ss. anyOf_placed False x"
          using ss by (rule list_all2_results) (rule IH)
        then have "anyOf_placed True (unifySchemas ss)" by (rule placed_unifySchemas)
        then show ?thesis by (simp add: s array_schema_def)
      qed
    next
      case (HObj es)
      show ?thesis
      proof (cases "a \<in> visited \<sigma>")
        case True
        then have "s = typed ''object''"
          using run inferSchema_visited_object [OF HObj True, of H n] by simp
        then show ?thesis using typed_ok by simp
      next
        case False
        let ?\<sigma>a = "\<sigma>\<lparr>visited := insert a (visited \<sigma>)\<rparr>"
        from run have "\<sigma>' = \<sigma> \<and>
               (\<exists>ss. list_all2 (\<lambda>e s. inferSchema H n ?\<sigma>a (snd e) = (Inr s, ?\<sigma>a)) es ss
                    \<and> s = object_schema (Object_assign [] (zip (map fst es) ss)) (map fst es))"
          by (simp only: inferSchema_object_iff [OF HObj False])
        then obtain ss where ss: "list_all2 (\<lambda>e s. inferSchema H n ?\<sigma>a (snd e) = (Inr s, ?\<sigma>a)) es ss"
          and s: "s = object_schema (Object_assign [] (zip (map fst es) ss)) (map fst es)"
          by blast
        have "\<forall>x\<in>set ss. anyOf_placed False x"
          using ss by (rule list_all2_results) (rule IH)
        moreover have "snd ` set (Object_assign [] (zip (map fst es) ss)) \<subseteq> set ss"
        proof -
          have z: "snd ` set (zip (map fst es) ss) \<subseteq> set ss" by (auto dest: set_zip_rightD)
          have "snd ` set (Object_assign [] (zip (map fst es) ss))
                  \<subseteq> snd ` set (zip (map fst es) ss)"
            using Object_assign_values [of "[]" "zip (map fst es) ss"] by simp
          then show ?thesis using z by blast
        qed
        ultimately have "\<forall>x\<in>snd ` set (Object_assign [] (zip (map fst es) ss)). anyOf_placed False x"
          by blast
        then show ?thesis by (simp add: s object_schema_def)
      qed
    qed
  qed
qed

text \<open>
  C10: a fragment returned by \<^verbatim>\<open>inferSchema\<close> has a \<^verbatim>\<open>type\<close> field and no
  \<^verbatim>\<open>anyOf\<close> field, and inside it every fragment with an \<^verbatim>\<open>anyOf\<close> field is the value
  of an \<^verbatim>\<open>items\<close> field, within the \<^verbatim>\<open>items\<close> of an array fragment.
\<close>
theorem C10_result_typed_anyOf_under_items:
  assumes "inferSchema H n \<sigma> value = (Inr s, \<sigma>')"
  shows "type s \<noteq> None \<and> anyOf s = None \<and> anyOf_placed False s"
proof -
  have 1: "type s \<noteq> None \<and> anyOf_placed False s" using assms by (rule inferSchema_typed_placed)
  then have "anyOf s = None" by (cases s) auto
  then show ?thesis using 1 by simp
qed

theorem C10_witness:
  "inferSchema example_host 3
     \<lparr>heap = store [(0, HArr [JRef 1]), (1, HArr [JNum (Fin 1), JStr ''a''])], visited = {}\<rparr> (JRef 0)
     = (Inr (Schema (Some ''array'') None
               (Some (Schema None None
                  (Some (Schema None None None None None
                     (Some [Schema (Some ''integer'') None None None None None,
                            Schema (Some ''string'') None None None None None])))
                  None None None))
               None None None),
        \<lparr>heap = store [(0, HArr [JRef 1]), (1, HArr [JNum (Fin 1), JStr ''a''])], visited = {}\<rparr>)
   \<and> anyOf_placed False
       (Schema (Some ''array'') None
               (Some (Schema None None
                  (Some (Schema None None None None None
                     (Some [Schema (Some ''integer'') None None None None None,
                            Schema (Some ''string'') None None None None None])))
                  None None None))
               None None None)"
proof -
  have u1: "unifySchemas [typed ''integer'', typed ''string''] = anyOf_schema [typed ''integer'', typed ''string'']"
    by (rule unify_mixed) (simp add: typed_def)
  have u2: "unifySchemas [array_schema (anyOf_schema [typed ''integer'', typed ''string''])]
              = Schema None None (Some (anyOf_schema [typed ''integer'', typed ''string''])) None None None"
    by (simp add: unifySchemas_def new_Set_def Set_add_def array_schema_def)
  have s: "infer_string example_host ''a'' = typed ''string''"
    by (simp add: infer_string_def example_host_def match_date_def match_date_time_def
                  date_atoms_unfold date_time_atoms_unfold)
  have e: "inferSchema example_host 3
     \<lparr>heap = store [(0, HArr [JRef 1]), (1, HArr [JNum (Fin 1), JStr ''a''])], visited = {}\<rparr> (JRef 0)
     = (Inr (Schema (Some ''array'') None
               (Some (Schema None None
                  (Some (Schema None None None None None
                     (Some [Schema (Some ''integer'') None None None None None,
                            Schema (Some ''string'') None None None None None])))
                  None None None))
               None None None),
        \<lparr>heap = store [(0, HArr [JRef 1]), (1, HArr [JNum (Fin 1), JStr ''a''])], visited = {}\<rparr>)"
    by (simp add: numeral_3_eq_3 store_def s u1 u2) (simp add: typed_def array_schema_def anyOf_schema_def)
  show ?thesis using C10_result_typed_anyOf_under_items [OF e] e by simp
qed

subsection \<open>The object merge\<close>

lemma new_Set_first_seen: "new_Set xs = first_seen xs"
proof (induction xs rule: rev_induct)
  case Nil
  show ?case by (simp add: new_Set_def first_seen_def)
next
  case (snoc x xs)
  have "new_Set (xs @ [x]) = Set_add (new_Set xs) x" by (simp add: new_Set_def)
  also have "\<dots> = (if x \<in> set xs then first_seen xs else first_seen xs @ [x])"
    by (simp add: Set_add_def snoc.IH [symmetric] set_new_Set)
  also have "\<dots> = first_seen (xs @ [x])" by (simp add: first_seen_def)
  finally show ?case .
qed

lemma foldl_Set_add_new_Set: "foldl Set_add (new_Set ys) xs = new_Set (ys @ xs)"
  by (simp add: new_Set_def)

lemma merge_step_required:
  "snd (foldl merge_step (mp, new_Set ys) schemas) = new_Set (ys @ concat (map required_of schemas))"
proof (induction schemas arbitrary: mp ys)
  case Nil
  show ?case by simp
next
  case (Cons s schemas)
  have "merge_step (mp, new_Set ys) s = (fst (merge_step (mp, new_Set ys) s), new_Set (ys @ required_of s))"
    by (simp add: merge_step_def required_of_def foldl_Set_add_new_Set split: option.splits)
  then have "snd (foldl merge_step (mp, new_Set ys) (s # schemas))
               = snd (foldl merge_step (fst (merge_step (mp, new_Set ys) s), new_Set (ys @ required_of s)) schemas)"
    by simp
  also have "\<dots> = new_Set ((ys @ required_of s) @ concat (map required_of schemas))"
    by (rule Cons.IH)
  finally show ?case by simp
qed

lemma map_of_js_set:
  "k \<noteq> ''__proto__'' \<Longrightarrow> map_of (js_set obj k v) = (map_of obj)(k \<mapsto> v)"
  by (simp add: js_set_def update_conv')

lemma distinct_js_set: "distinct (map fst obj) \<Longrightarrow> distinct (map fst (js_set obj k v))"
  by (simp add: js_set_def distinct_update)

lemma distinct_Object_assign:
  "distinct (map fst t) \<Longrightarrow> distinct (map fst (Object_assign t src))"
proof (induction src arbitrary: t)
  case Nil
  then show ?case by (simp add: Object_assign_Nil)
next
  case (Cons e src)
  obtain k v where e: "e = (k, v)" by (cases e)
  show ?case unfolding e Object_assign_Cons
    by (rule Cons.IH) (rule distinct_js_set, rule Cons.prems)
qed

lemma map_of_Object_assign:
  assumes "distinct (map fst src)" and "''__proto__'' \<notin> fst ` set src"
  shows "map_of (Object_assign t src) = map_of t ++ map_of src"
  using assms
proof (induction src arbitrary: t)
  case Nil
  show ?case by (simp add: Object_assign_Nil)
next
  case (Cons e src)
  obtain k v where e: "e = (k, v)" by (cases e)
  have k: "k \<noteq> ''__proto__''" and nk: "k \<notin> fst ` set src"
    and d: "distinct (map fst src)" and np: "''__proto__'' \<notin> fst ` set src"
    using Cons.prems e by auto
  have "map_of (Object_assign t (e # src)) = map_of (js_set t k v) ++ map_of src"
    unfolding e Object_assign_Cons using d np by (rule Cons.IH)
  also have "\<dots> = (map_of t)(k \<mapsto> v) ++ map_of src" by (simp add: map_of_js_set k)
  also have "\<dots> = map_of t ++ (map_of src)(k \<mapsto> v)"
  proof -
    have "map_of src k = None" using nk by (simp add: map_of_eq_None_iff)
    then show ?thesis by (auto simp: map_add_def fun_eq_iff split: option.splits)
  qed
  finally show ?case by (simp only: e map_of.simps fst_conv snd_conv)
qed

lemma proto_free_js_set:
  "''__proto__'' \<notin> fst ` set obj \<Longrightarrow> ''__proto__'' \<notin> fst ` set (js_set obj k v)"
  by (auto simp: js_set_def dom_update)

lemma proto_free_Object_assign:
  "''__proto__'' \<notin> fst ` set t \<Longrightarrow> ''__proto__'' \<notin> fst ` set (Object_assign t src)"
proof (induction src arbitrary: t)
  case Nil
  then show ?case by (simp add: Object_assign_Nil)
next
  case (Cons e src)
  obtain k v where e: "e = (k, v)" by (cases e)
  show ?case unfolding e Object_assign_Cons
    by (rule Cons.IH) (rule proto_free_js_set, rule Cons.prems)
qed

lemma merge_step_properties:
  assumes "\<forall>s\<in>set schemas. own_keys_ok s"
  shows "map_of (fst (foldl merge_step (mp, rq) schemas))
           = foldl (++) (map_of mp) (map properties_of schemas)"
  using assms
proof (induction schemas arbitrary: mp rq)
  case Nil
  show ?case by simp
next
  case (Cons s schemas)
  have 1: "map_of (fst (merge_step (mp, rq) s)) = map_of mp ++ properties_of s"
  proof (cases "properties s")
    case None
    then show ?thesis by (simp add: merge_step_def properties_of_def)
  next
    case (Some ps)
    then have "distinct (map fst ps)" and "''__proto__'' \<notin> fst ` set ps"
      using Cons.prems by (auto simp: own_keys_ok_def)
    then have "map_of (Object_assign mp ps) = map_of mp ++ map_of ps" by (rule map_of_Object_assign)
    then show ?thesis using Some by (simp add: merge_step_def properties_of_def)
  qed
  obtain mp' rq' where m: "merge_step (mp, rq) s = (mp', rq')" by (cases "merge_step (mp, rq) s")
  have "map_of (fst (foldl merge_step (mp', rq') schemas))
           = foldl (++) (map_of mp') (map properties_of schemas)"
    using Cons.prems by (intro Cons.IH) simp
  then show ?case using 1 m by simp
qed

lemma merge_step_distinct:
  "distinct (map fst mp) \<Longrightarrow> distinct (map fst (fst (foldl merge_step (mp, rq) schemas)))"
proof (induction schemas arbitrary: mp rq)
  case Nil
  then show ?case by simp
next
  case (Cons s schemas)
  obtain mp' rq' where m: "merge_step (mp, rq) s = (mp', rq')" by (cases "merge_step (mp, rq) s")
  have "distinct (map fst mp')"
    using m Cons.prems distinct_Object_assign by (auto simp: merge_step_def split: option.splits)
  then have "distinct (map fst (fst (foldl merge_step (mp', rq') schemas)))" by (rule Cons.IH)
  then show ?case using m by simp
qed

lemma unifySchemas_all_objects:
  assumes "schemas \<noteq> []" and "\<forall>s\<in>set schemas. type s = Some ''object''"
    and "\<forall>s\<in>set schemas. own_keys_ok s"
  shows "\<exists>mp. unifySchemas schemas
                = Schema (Some ''object'') None None (Some mp)
                    (Some (first_seen (concat (map required_of schemas)))) None
              \<and> distinct (map fst mp)
              \<and> map_of mp = foldl (++) Map.empty (map properties_of schemas)"
proof -
  let ?m = "foldl merge_step ([], []) schemas"
  have "new_Set (map type schemas) = [Some ''object'']"
    using assms(1,2) by (intro new_Set_single) auto
  then have u: "unifySchemas schemas = object_schema (fst ?m) (snd ?m)" by (rule unifySchemas_object)
  have "snd (foldl merge_step ([], new_Set []) schemas) = new_Set ([] @ concat (map required_of schemas))"
    by (rule merge_step_required)
  then have r: "snd ?m = first_seen (concat (map required_of schemas))"
    by (simp add: new_Set_first_seen) (simp add: first_seen_def)
  have d: "distinct (map fst (fst ?m))" by (rule merge_step_distinct) simp
  have p: "map_of (fst ?m) = foldl (++) Map.empty (map properties_of schemas)"
    using merge_step_properties [OF assms(3), of "[]" "[]"] by simp
  show ?thesis using u r d p by (auto simp: object_schema_def)
qed

lemma inferSchema_own_keys_ok:
  assumes "inferSchema H n \<sigma> v = (Inr s, \<sigma>')"
  shows "own_keys_ok s"
proof (cases n)
  case 0
  then show ?thesis using assms by simp
next
  case (Suc m)
  show ?thesis
  proof (cases "\<exists>a. v = JRef a")
    case False
    then have "(\<exists>t. s = typed t) \<or> (\<exists>str. s = infer_string H str)"
      using assms Suc by (intro inferSchema_not_ref) auto
    then show ?thesis by (auto simp: own_keys_ok_def typed_def infer_string_def Let_def)
  next
    case True
    then obtain a where v: "v = JRef a" by blast
    have run: "inferSchema H (Suc m) \<sigma> (JRef a) = (Inr s, \<sigma>')" using assms v Suc by simp
    show ?thesis
    proof (cases "heap \<sigma> a")
      case (HArr elems)
      then have "\<exists>u. s = array_schema u" using run by (auto split: if_splits prod.splits sum.splits)
      then show ?thesis by (auto simp: own_keys_ok_def array_schema_def)
    next
      case (HObj es)
      show ?thesis
      proof (cases "a \<in> visited \<sigma>")
        case True
        then have "s = typed ''object''"
          using run inferSchema_visited_object [OF HObj True, of H m] by simp
        then show ?thesis by (simp add: own_keys_ok_def typed_def)
      next
        case False
        from run have "\<exists>kss. s = object_schema (Object_assign [] kss) (map fst es)"
          unfolding inferSchema_object_iff [OF HObj False] by blast
        then obtain kss where s: "s = object_schema (Object_assign [] kss) (map fst es)" by blast
        have "distinct (map fst (Object_assign [] kss))" by (rule distinct_Object_assign) simp
        moreover have "''__proto__'' \<notin> fst ` set (Object_assign [] kss)"
          by (rule proto_free_Object_assign) simp
        ultimately show ?thesis by (simp add: s own_keys_ok_def object_schema_def)
      qed
    qed
  qed
qed

text \<open>
  C6: when every fragment of a non-empty input has type \<^verbatim>\<open>object\<close>, \<^verbatim>\<open>unifySchemas\<close>
  returns one object fragment; its \<^verbatim>\<open>properties\<close> is the union of the inputs'
  properties in which a later input overwrites an earlier one, and its \<^verbatim>\<open>required\<close> is
  the inputs' required lists joined, without duplicates, in first-seen order.  Hence
  \<^verbatim>\<open>inferSchema([{"a":1},{"a":2,"b":"x"}])\<close> is the array fragment whose items are
  \<^verbatim>\<open>{type:"object", properties:{a:{type:"integer"}, b:{type:"string"}}, required:["a","b"]}\<close>,
  on every host whose \<^verbatim>\<open>URL\<close> rejects \<^verbatim>\<open>"x"\<close>.
\<close>
theorem C6_objects_merged:
  "(schemas \<noteq> [] \<and> (\<forall>s\<in>set schemas. type s = Some ''object'' \<and> own_keys_ok s)
      \<longrightarrow> (\<exists>mp. unifySchemas schemas
                   = Schema (Some ''object'') None None (Some mp)
                       (Some (first_seen (concat (map required_of schemas)))) None
                 \<and> distinct (map fst mp)
                 \<and> map_of mp = foldl (++) Map.empty (map properties_of schemas)))
   \<and> (URL_throws H ''x'' \<and> h a = HArr [JRef b, JRef c]
        \<and> h b = HObj [(''a'', JNum (Fin 1))]
        \<and> h c = HObj [(''a'', JNum (Fin 2)), (''b'', JStr ''x'')]
      \<longrightarrow> fst (inferSchema_default H (Suc (Suc (Suc n))) h (JRef a))
          = Inr (Schema (Some ''array'') None
                  (Some (Schema (Some ''object'') None None
                     (Some [(''a'', Schema (Some ''integer'') None None None None None),
                            (''b'', Schema (Some ''string'') None None None None None)])
                     (Some [''a'', ''b'']) None))
                  None None None))"
proof (intro conjI impI)
  assume "schemas \<noteq> [] \<and> (\<forall>s\<in>set schemas. type s = Some ''object'' \<and> own_keys_ok s)"
  then show "\<exists>mp. unifySchemas schemas
                   = Schema (Some ''object'') None None (Some mp)
                       (Some (first_seen (concat (map required_of schemas)))) None
                 \<and> distinct (map fst mp)
                 \<and> map_of mp = foldl (++) Map.empty (map properties_of schemas)"
    by (intro unifySchemas_all_objects) auto
next
  assume a: "URL_throws H ''x'' \<and> h a = HArr [JRef b, JRef c]
        \<and> h b = HObj [(''a'', JNum (Fin 1))]
        \<and> h c = HObj [(''a'', JNum (Fin 2)), (''b'', JStr ''x'')]"
  have s: "infer_string H ''x'' = typed ''string''"
    using a by (simp add: infer_string_def match_date_def match_date_time_def
                          date_atoms_unfold date_time_atoms_unfold)
  have u: "unifySchemas [object_schema [(''a'', typed ''integer'')] [''a''],
                         object_schema [(''a'', typed ''integer''), (''b'', typed ''string'')] [''a'', ''b'']]
             = object_schema [(''a'', typed ''integer''), (''b'', typed ''string'')] [''a'', ''b'']"
    by (simp add: unifySchemas_def new_Set_def Set_add_def object_schema_def merge_step_def
                  Object_assign_def js_set_def)
  show "fst (inferSchema_default H (Suc (Suc (Suc n))) h (JRef a))
          = Inr (Schema (Some ''array'') None
                  (Some (Schema (Some ''object'') None None
                     (Some [(''a'', Schema (Some ''integer'') None None None None None),
                            (''b'', Schema (Some ''string'') None None None None None)])
                     (Some [''a'', ''b'']) None))
                  None None None)"
    using a by (simp add: inferSchema_default_def s js_set_def u)
               (simp add: typed_def array_schema_def object_schema_def)
qed

theorem C6_witness:
  "unifySchemas
     [Schema (Some ''object'') None None
        (Some [(''a'', Schema (Some ''integer'') None None None None None)]) (Some [''a'']) None,
      Schema (Some ''object'') None None
        (Some [(''b'', Schema (Some ''string'') None None None None None),
               (''a'', Schema (Some ''number'') None None None None None)]) (Some [''b'', ''a'']) None]
     = Schema (Some ''object'') None None
         (Some [(''a'', Schema (Some ''number'') None None None None None),
                (''b'', Schema (Some ''string'') None None None None None)])
         (Some [''a'', ''b'']) None
   \<and> fst (inferSchema_default example_host 3
            (store [(0, HArr [JRef 1, JRef 2]),
                    (1, HObj [(''a'', JNum (Fin 1))]),
                    (2, HObj [(''a'', JNum (Fin 2)), (''b'', JStr ''x'')])]) (JRef 0))
     = Inr (Schema (Some ''array'') None
              (Some (Schema (Some ''object'') None None
                 (Some [(''a'', Schema (Some ''integer'') None None None None None),
                        (''b'', Schema (Some ''string'') None None None None None)])
                 (Some [''a'', ''b'']) None))
              None None None)"
proof -
  have u: "unifySchemas
     [Schema (Some ''object'') None None
        (Some [(''a'', Schema (Some ''integer'') None None None None None)]) (Some [''a'']) None,
      Schema (Some ''object'') None None
        (Some [(''b'', Schema (Some ''string'') None None None None None),
               (''a'', Schema (Some ''number'') None None None None None)]) (Some [''b'', ''a'']) None]
     = Schema (Some ''object'') None None
         (Some [(''a'', Schema (Some ''number'') None None None None None),
                (''b'', Schema (Some ''string'') None None None None None)])
         (Some [''a'', ''b'']) None"
    by (simp add: unifySchemas_def new_Set_def Set_add_def object_schema_def merge_step_def
                  Object_assign_def js_set_def)
  show ?thesis
    using C6_objects_merged
            [of "[Schema (Some ''object'') None None
                    (Some [(''a'', Schema (Some ''integer'') None None None None None)]) (Some [''a'']) None,
                  Schema (Some ''object'') None None
                    (Some [(''b'', Schema (Some ''string'') None None None None None),
                           (''a'', Schema (Some ''number'') None None None None None)]) (Some [''b'', ''a'']) None]"
                example_host
                "store [(0, HArr [JRef 1, JRef 2]),
                        (1, HObj [(''a'', JNum (Fin 1))]),
                        (2, HObj [(''a'', JNum (Fin 2)), (''b'', JStr ''x'')])]" 0 1 2 0]
          u
    by (simp add: store_def example_host_def numeral_3_eq_3 own_keys_ok_def)
qed

subsection \<open>The format of a string\<close>

lemma match_atoms_Cons:
  "match_atoms (a # as) s =
     (case s of [] \<Rightarrow> None | c # cs \<Rightarrow> if atom_matches a c then match_atoms as cs else None)"
  by (cases a; cases s) auto

lemma match_atoms_iff:
  "match_atoms as s = Some r
     \<longleftrightarrow> length as \<le> length s \<and> (\<forall>i<length as. atom_matches (as ! i) (s ! i))
         \<and> r = drop (length as) s"
proof (induction as arbitrary: s)
  case Nil
  show ?case by auto
next
  case (Cons a as)
  show ?case
  proof (cases s)
    case Nil
    then show ?thesis by simp
  next
    case (Cons c cs)
    have "(\<forall>i<Suc (length as). atom_matches ((a # as) ! i) ((c # cs) ! i))
            \<longleftrightarrow> atom_matches a c \<and> (\<forall>i<length as. atom_matches (as ! i) (cs ! i))"
      by (auto simp: less_Suc_eq_0_disj)
    then show ?thesis
      unfolding match_atoms_Cons Cons using Cons.IH [of cs] by auto
  qed
qed

lemma String_includes_single: "String_includes s [c] \<longleftrightarrow> c \<in> set s"
proof (induction s)
  case Nil
  show ?case by simp
next
  case (Cons d s)
  have "starts_with (d # s) [c] \<longleftrightarrow> d = c" by simp
  then show ?case using Cons.IH by auto
qed

lemma all_less_10:
  "(\<forall>i<(10::nat). P i) \<longleftrightarrow> P 0 \<and> P 1 \<and> P 2 \<and> P 3 \<and> P 4 \<and> P 5 \<and> P 6 \<and> P 7 \<and> P 8 \<and> P 9"
proof -
  have "{..<(10::nat)} = {0, 1, 2, 3, 4, 5, 6, 7, 8, 9}" by auto
  then have "(\<forall>i<(10::nat). P i) \<longleftrightarrow> (\<forall>i\<in>{0, 1, 2, 3, 4, 5, 6, 7, 8, 9}. P i)"
    by (metis lessThan_iff)
  then show ?thesis by simp
qed

lemma all_less_19:
  "(\<forall>i<(19::nat). P i) \<longleftrightarrow> (\<forall>i<(10::nat). P i) \<and> P 10 \<and> P 11 \<and> P 12 \<and> P 13 \<and> P 14 \<and> P 15
                                   \<and> P 16 \<and> P 17 \<and> P 18"
proof -
  have "{..<(19::nat)} = {..<10} \<union> {10, 11, 12, 13, 14, 15, 16, 17, 18}" by auto
  then have "(\<forall>i<(19::nat). P i) \<longleftrightarrow> (\<forall>i\<in>{..<10} \<union> {10, 11, 12, 13, 14, 15, 16, 17, 18}. P i)"
    by (metis lessThan_iff)
  then show ?thesis by (auto simp: ball_Un)
qed

lemma length_date_atoms: "length date_atoms = 10"
  by (simp add: date_atoms_unfold)

lemma length_date_time_atoms: "length date_time_atoms = 19"
  by (simp add: date_time_atoms_unfold)

lemma match_date_iff: "match_date s \<longleftrightarrow> is_YYYY_MM_DD s"
proof -
  have "match_date s \<longleftrightarrow> length s = 10 \<and> (\<forall>i<10. atom_matches (date_atoms ! i) (s ! i))"
    unfolding match_date_def match_atoms_iff length_date_atoms by auto
  also have "\<dots> \<longleftrightarrow> is_YYYY_MM_DD s"
    unfolding all_less_10 is_YYYY_MM_DD_def by (simp add: date_atoms_unfold) blast
  finally show ?thesis .
qed


lemma match_date_time_iff: "match_date_time s \<longleftrightarrow> has_date_time_prefix s"
proof -
  have "match_date_time s
          \<longleftrightarrow> 19 \<le> length s \<and> (\<forall>i<19. atom_matches (date_time_atoms ! i) (s ! i))"
    unfolding match_date_time_def using match_atoms_iff [of date_time_atoms s]
    by (auto simp: length_date_time_atoms)
  also have "\<dots> \<longleftrightarrow> has_date_time_prefix s"
    unfolding all_less_19 all_less_10 has_date_time_prefix_def is_YYYY_MM_DD_def
    by (simp add: date_time_atoms_unfold) (auto simp: min_def)
  finally show ?thesis .
qed

lemma infer_string_spec:
  "infer_string H s = Schema (Some ''string'') (spec_format H s) None None None None"
  by (simp add: infer_string_def spec_format_def typed_def match_date_iff match_date_time_iff
                String_includes_single Let_def)


text \<open>
  C5: on a string \<^verbatim>\<open>inferSchema\<close> returns \<^verbatim>\<open>{type:"string"}\<close> with at most one
  \<^verbatim>\<open>format\<close>, chosen by the first test that succeeds: the string parses as a URL
  (\<^verbatim>\<open>uri\<close>), it contains both \<^verbatim>\<open>@\<close> and \<^verbatim>\<open>.\<close> (\<^verbatim>\<open>email\<close>), it has the shape
  \<^verbatim>\<open>YYYY-MM-DD\<close> and is a valid date (\<^verbatim>\<open>date\<close>), it starts with the shape
  \<^verbatim>\<open>YYYY-MM-DDTHH:MM:SS\<close> and is a valid date (\<^verbatim>\<open>date-time\<close>); otherwise there is no
  format.  The five examples hold on every host whose \<^verbatim>\<open>URL\<close> accepts
  \<^verbatim>\<open>https://example.com\<close> and rejects the other four strings, and whose
  \<^verbatim>\<open>Date.parse\<close> accepts the two dates.
\<close>
theorem C5_string_format_precedence:
  "inferSchema H (Suc n) \<sigma> (JStr s)
     = (Inr (Schema (Some ''string'') (spec_format H s) None None None None), \<sigma>)
   \<and> (URL_throws H ''2024-01-15'' \<and> \<not> Date_parse_isNaN H ''2024-01-15''
      \<longrightarrow> fst (inferSchema H (Suc n) \<sigma> (JStr ''2024-01-15''))
          = Inr (Schema (Some ''string'') (Some ''date'') None None None None))
   \<and> (URL_throws H ''2024-01-15T10:00:00Z'' \<and> \<not> Date_parse_isNaN H ''2024-01-15T10:00:00Z''
      \<longrightarrow> fst (inferSchema H (Suc n) \<sigma> (JStr ''2024-01-15T10:00:00Z''))
          = Inr (Schema (Some ''string'') (Some ''date-time'') None None None None))
   \<and> (URL_throws H ''user@example.com''
      \<longrightarrow> fst (inferSchema H (Suc n) \<sigma> (JStr ''user@example.com''))
          = Inr (Schema (Some ''string'') (Some ''email'') None None None None))
   \<and> (\<not> URL_throws H ''https://example.com''
      \<longrightarrow> fst (inferSchema H (Suc n) \<sigma> (JStr ''https://example.com''))
          = Inr (Schema (Some ''string'') (Some ''uri'') None None None None))
   \<and> (URL_throws H ''hello''
      \<longrightarrow> fst (inferSchema H (Suc n) \<sigma> (JStr ''hello''))
          = Inr (Schema (Some ''string'') None None None None None))"
proof -
  have d: "is_YYYY_MM_DD ''2024-01-15''"
    by (simp add: is_YYYY_MM_DD_def is_digit_def)
  have dt: "has_date_time_prefix ''2024-01-15T10:00:00Z''"
    by (simp add: has_date_time_prefix_def is_YYYY_MM_DD_def is_digit_def)
  have ndt: "\<not> is_YYYY_MM_DD ''2024-01-15T10:00:00Z''"
    by (simp add: is_YYYY_MM_DD_def)
  have h1: "\<not> is_YYYY_MM_DD ''hello''" by (simp add: is_YYYY_MM_DD_def)
  have h2: "\<not> has_date_time_prefix ''hello''" by (simp add: has_date_time_prefix_def)
  show ?thesis
    by (simp add: infer_string_spec spec_format_def d dt ndt h1 h2)
qed

theorem C5_witness:
  "fst (inferSchema_default example_host 1 (store []) (JStr ''2024-01-15''))
     = Inr (Schema (Some ''string'') (Some ''date'') None None None None)
   \<and> fst (inferSchema_default example_host 1 (store []) (JStr ''2024-01-15T10:00:00Z''))
     = Inr (Schema (Some ''string'') (Some ''date-time'') None None None None)
   \<and> fst (inferSchema_default example_host 1 (store []) (JStr ''user@example.com''))
     = Inr (Schema (Some ''string'') (Some ''email'') None None None None)
   \<and> fst (inferSchema_default example_host 1 (store []) (JStr ''https://example.com''))
     = Inr (Schema (Some ''string'') (Some ''uri'') None None None None)
   \<and> fst (inferSchema_default example_host 1 (store []) (JStr ''hello''))
     = Inr (Schema (Some ''string'') None None None None None)"
proof -
  have d: "is_YYYY_MM_DD ''2024-01-15''"
    by (simp add: is_YYYY_MM_DD_def is_digit_def)
  have dt: "has_date_time_prefix ''2024-01-15T10:00:00Z''"
    by (simp add: has_date_time_prefix_def is_YYYY_MM_DD_def is_digit_def)
  have u: "URL_throws example_host ''2024-01-15''" "URL_throws example_host ''2024-01-15T10:00:00Z''"
    "URL_throws example_host ''user@example.com''" "\<not> URL_throws example_host ''https://example.com''"
    "URL_throws example_host ''hello''"
    by (simp_all add: example_host_def)
  have p: "\<not> Date_parse_isNaN example_host ''2024-01-15''"
    "\<not> Date_parse_isNaN example_host ''2024-01-15T10:00:00Z''"
    using d dt by (simp_all add: example_host_def match_date_iff match_date_time_iff)
  show ?thesis
    using C5_string_format_precedence
            [of example_host 0 "\<lparr>heap = store [], visited = {}\<rparr>" "''2024-01-15''"] u p d
    by (simp add: inferSchema_default_def spec_format_def infer_string_spec d dt)
qed

subsection \<open>Objects: self-reference and shared references\<close>

lemma Object_assign_drops_proto:
  "Object_assign t src = Object_assign t (filter (\<lambda>e. fst e \<noteq> ''__proto__'') src)"
proof (induction src arbitrary: t)
  case Nil
  show ?case by simp
next
  case (Cons e src)
  obtain k v where e: "e = (k, v)" by (cases e)
  show ?case
  proof (cases "k = ''__proto__''")
    case True
    then have "js_set t k v = t" by (simp add: js_set_def)
    then show ?thesis using Cons.IH [of t] True by (simp add: e Object_assign_Cons)
  next
    case False
    then show ?thesis using Cons.IH [of "js_set t k v"] by (simp add: e Object_assign_Cons)
  qed
qed

lemma map_of_Object_assign_key:
  assumes "distinct (map fst src)" and "k \<noteq> ''__proto__''"
  shows "map_of (Object_assign t src) k = (map_of t ++ map_of src) k"
proof -
  let ?f = "filter (\<lambda>e. fst e \<noteq> ''__proto__'') src"
  have d: "distinct (map fst ?f)" using assms(1) by (rule distinct_map_filter)
  have np: "''__proto__'' \<notin> fst ` set ?f" by auto
  have "map_of (Object_assign t src) = map_of t ++ map_of ?f"
    using Object_assign_drops_proto [of t src] map_of_Object_assign [OF d np, of t] by simp
  moreover have "map_of ?f k = map_of src k"
    using assms(2) by (induction src) auto
  ultimately show ?thesis by (simp add: map_add_def)
qed

lemma list_all2_exists:
  assumes "\<forall>e\<in>set es. \<exists>s. R e s"
  shows "\<exists>ss. list_all2 R es ss"
  using assms
proof (induction es)
  case Nil
  show ?case by simp
next
  case (Cons e es)
  then obtain s ss where "R e s" and "list_all2 R es ss" by auto
  then have "list_all2 R (e # es) (s # ss)" by simp
  then show ?case by blast
qed

lemma map_of_zip_results:
  assumes "list_all2 R es ss" and "distinct (map fst es)" and "(k, v) \<in> set es"
  shows "\<exists>s. map_of (zip (map fst es) ss) k = Some s \<and> R (k, v) s"
  using assms
proof (induction rule: list_all2_induct)
  case Nil
  then show ?case by simp
next
  case (Cons e es s ss)
  show ?case
  proof (cases "e = (k, v)")
    case True
    then show ?thesis using Cons.hyps(1) by auto
  next
    case False
    then have in_rest: "(k, v) \<in> set es" using Cons.prems by auto
    then have "k \<in> fst ` set es" by force
    then have "fst e \<noteq> k" using Cons.prems(1) by auto
    moreover have "\<exists>s. map_of (zip (map fst es) ss) k = Some s \<and> R (k, v) s"
      using Cons.IH Cons.prems(1) in_rest by simp
    ultimately show ?thesis by auto
  qed
qed

lemma not_RangeError: "r \<noteq> Inl RangeError \<Longrightarrow> \<exists>s. r = Inr s"
proof (cases r)
  case (Inl e)
  assume "r \<noteq> Inl RangeError"
  then show ?thesis using Inl by (cases e) simp
next
  case (Inr s)
  then show ?thesis by blast
qed

lemma inferSchema_returns:
  assumes "fst (inferSchema H n \<sigma> v) \<noteq> Inl RangeError"
  shows "\<exists>s. inferSchema H n \<sigma> v = (Inr s, \<sigma>)"
proof -
  obtain r \<sigma>' where 1: "inferSchema H n \<sigma> v = (r, \<sigma>')" by (cases "inferSchema H n \<sigma> v")
  then obtain s where "r = Inr s" using assms not_RangeError by fastforce
  then show ?thesis using 1 inferSchema_restores by blast
qed

lemma inferSchema_object_full:
  assumes "heap \<sigma> b = HObj es" and "b \<notin> visited \<sigma>" and "inferSchema H n \<sigma> (JRef b) = (Inr t, \<sigma>')"
  shows "properties t \<noteq> None \<and> required t = Some (map fst es)"
proof (cases n)
  case 0
  then show ?thesis using assms by simp
next
  case (Suc m)
  then have "inferSchema H (Suc m) \<sigma> (JRef b) = (Inr t, \<sigma>')" using assms(3) by simp
  then have "\<exists>ss. t = object_schema (Object_assign [] (zip (map fst es) ss)) (map fst es)"
    unfolding inferSchema_object_iff [OF assms(1,2)] by blast
  then show ?thesis by (auto simp: object_schema_def)
qed


lemma object_properties:
  assumes obj: "heap \<sigma> a = HObj es" and fresh: "a \<notin> visited \<sigma>" and keys: "distinct (map fst es)"
    and ret: "\<forall>e\<in>set es. \<exists>s. inferSchema H n (\<sigma>\<lparr>visited := insert a (visited \<sigma>)\<rparr>) (snd e)
                                = (Inr s, \<sigma>\<lparr>visited := insert a (visited \<sigma>)\<rparr>)"
  shows "\<exists>props. inferSchema H (Suc n) \<sigma> (JRef a) = (Inr (object_schema props (map fst es)), \<sigma>)
           \<and> (\<forall>(k, v)\<in>set es. k \<noteq> ''__proto__'' \<longrightarrow>
                 (\<exists>t. map_of props k = Some t
                    \<and> inferSchema H n (\<sigma>\<lparr>visited := insert a (visited \<sigma>)\<rparr>) v
                        = (Inr t, \<sigma>\<lparr>visited := insert a (visited \<sigma>)\<rparr>)))"
proof -
  let ?\<sigma>a = "\<sigma>\<lparr>visited := insert a (visited \<sigma>)\<rparr>"
  let ?R = "\<lambda>e s. inferSchema H n ?\<sigma>a (snd e) = (Inr s, ?\<sigma>a)"
  obtain ss where ss: "list_all2 ?R es ss" using list_all2_exists [OF ret] by blast
  let ?props = "Object_assign [] (zip (map fst es) ss)"
  have run: "inferSchema H (Suc n) \<sigma> (JRef a) = (Inr (object_schema ?props (map fst es)), \<sigma>)"
    unfolding inferSchema_object_iff [OF obj fresh] using ss by blast
  have len: "length es = length ss" using ss by (rule list_all2_lengthD)
  then have zk: "map fst (zip (map fst es) ss) = map fst es" by simp
  have "\<exists>t. map_of ?props k = Some t \<and> inferSchema H n ?\<sigma>a v = (Inr t, ?\<sigma>a)"
    if kv: "(k, v) \<in> set es" and np: "k \<noteq> ''__proto__''" for k v
  proof -
    obtain t where t: "map_of (zip (map fst es) ss) k = Some t" and r: "?R (k, v) t"
      using map_of_zip_results [OF ss keys kv] by blast
    have "map_of ?props k = (map_of [] ++ map_of (zip (map fst es) ss)) k"
      by (rule map_of_Object_assign_key) (simp_all add: zk keys np)
    then have "map_of ?props k = Some t" using t by simp
    then show ?thesis using r by simp
  qed
  then show ?thesis using run by blast
qed

text \<open>
  What the object branch does when the rest of the object can be inferred.  Let an object
  not yet visited have a property that references the object itself, and let the stack have
  room for its other properties.  Then \<^verbatim>\<open>inferSchema\<close> returns, in the state it
  started in, the full fragment
  \<^verbatim>\<open>{type:"object", properties:{...}, required:[...]}\<close> whose \<^verbatim>\<open>required\<close> lists every
  key, and in which the self-referential property is \<^verbatim>\<open>{type:"object"}\<close>.  Every
  property that references another object \<open>b\<close>, not visited, holds the full fragment that
  \<open>b\<close> alone is inferred to, however many sibling properties reference \<open>b\<close>; and the two
  elements of an array that are the same object are inferred to the same full fragment.
  (A key \<^verbatim>\<open>__proto__\<close> is never an own key of \<^verbatim>\<open>properties\<close>.)
\<close>
lemma self_reference_degraded_shared_object_full:
  assumes "heap \<sigma> a = HObj es" and "a \<notin> visited \<sigma>" and "distinct (map fst es)"
    and "\<forall>(k, v)\<in>set es. v \<noteq> JRef a \<longrightarrow>
           fst (inferSchema H (Suc n) (\<sigma>\<lparr>visited := insert a (visited \<sigma>)\<rparr>) v) \<noteq> Inl RangeError"
  shows "\<exists>props.
           inferSchema H (Suc (Suc n)) \<sigma> (JRef a)
             = (Inr (Schema (Some ''object'') None None (Some props) (Some (map fst es)) None), \<sigma>)
         \<and> (\<forall>(k, v)\<in>set es. k \<noteq> ''__proto__'' \<longrightarrow>
               (v = JRef a \<longrightarrow>
                  map_of props k = Some (Schema (Some ''object'') None None None None None))
             \<and> (\<forall>b eb. v = JRef b \<and> b \<noteq> a \<and> b \<notin> visited \<sigma> \<and> heap \<sigma> b = HObj eb \<longrightarrow>
                  (\<exists>t. map_of props k = Some t
                     \<and> fst (inferSchema H (Suc n) (\<sigma>\<lparr>visited := insert a (visited \<sigma>)\<rparr>) (JRef b))
                         = Inr t
                     \<and> properties t \<noteq> None \<and> required t = Some (map fst eb))))
         \<and> (\<forall>b eb t m. heap \<sigma> b = HObj eb \<and> b \<notin> visited \<sigma>
                 \<and> fst (inferSchema H m \<sigma> (JRef b)) = Inr t \<longrightarrow>
               inferItems H m \<sigma> [JRef b, JRef b] = (Inr [t, t], \<sigma>)
               \<and> properties t \<noteq> None \<and> required t = Some (map fst eb))"
proof -
  let ?\<sigma>a = "\<sigma>\<lparr>visited := insert a (visited \<sigma>)\<rparr>"
  have arr: "inferItems H m \<sigma> [JRef b, JRef b] = (Inr [t, t], \<sigma>)
               \<and> properties t \<noteq> None \<and> required t = Some (map fst eb)"
    if b: "heap \<sigma> b = HObj eb \<and> b \<notin> visited \<sigma> \<and> fst (inferSchema H m \<sigma> (JRef b)) = Inr t"
    for b eb t m
  proof -
    obtain \<sigma>' where "inferSchema H m \<sigma> (JRef b) = (Inr t, \<sigma>')"
      using b by (cases "inferSchema H m \<sigma> (JRef b)") simp
    then have rb: "inferSchema H m \<sigma> (JRef b) = (Inr t, \<sigma>)" using inferSchema_restores by blast
    have "properties t \<noteq> None \<and> required t = Some (map fst eb)"
      by (rule inferSchema_object_full [OF _ _ rb]) (use b in simp_all)
    then show ?thesis using rb by simp
  qed
  have self: "inferSchema H (Suc n) ?\<sigma>a (JRef a) = (Inr (typed ''object''), ?\<sigma>a)"
    by (rule inferSchema_visited_object [of _ _ es]) (simp_all add: assms(1))
  have ret: "\<forall>e\<in>set es. \<exists>s. inferSchema H (Suc n) ?\<sigma>a (snd e) = (Inr s, ?\<sigma>a)"
  proof
    fix e assume e: "e \<in> set es"
    show "\<exists>s. inferSchema H (Suc n) ?\<sigma>a (snd e) = (Inr s, ?\<sigma>a)"
    proof (cases "snd e = JRef a")
      case True
      then show ?thesis using self by simp
    next
      case False
      then have "fst (inferSchema H (Suc n) ?\<sigma>a (snd e)) \<noteq> Inl RangeError"
        using assms(4) e by (cases e) auto
      then show ?thesis by (rule inferSchema_returns)
    qed
  qed
  obtain props where run: "inferSchema H (Suc (Suc n)) \<sigma> (JRef a)
                             = (Inr (object_schema props (map fst es)), \<sigma>)"
    and each: "\<forall>(k, v)\<in>set es. k \<noteq> ''__proto__'' \<longrightarrow>
                 (\<exists>t. map_of props k = Some t \<and> inferSchema H (Suc n) ?\<sigma>a v = (Inr t, ?\<sigma>a))"
    using object_properties [OF assms(1,2,3) ret] by blast
  have "(v = JRef a \<longrightarrow> map_of props k = Some (Schema (Some ''object'') None None None None None))
        \<and> (\<forall>b eb. v = JRef b \<and> b \<noteq> a \<and> b \<notin> visited \<sigma> \<and> heap \<sigma> b = HObj eb \<longrightarrow>
              (\<exists>t. map_of props k = Some t
                 \<and> fst (inferSchema H (Suc n) ?\<sigma>a (JRef b)) = Inr t
                 \<and> properties t \<noteq> None \<and> required t = Some (map fst eb)))"
    if kv: "(k, v) \<in> set es" and np: "k \<noteq> ''__proto__''" for k v
  proof -
    obtain t where t: "map_of props k = Some t" and r: "inferSchema H (Suc n) ?\<sigma>a v = (Inr t, ?\<sigma>a)"
      using each kv np by blast
    have 1: "map_of props k = Some (Schema (Some ''object'') None None None None None)" if va: "v = JRef a"
      using va t r self by (simp add: typed_def)
    have 2: "\<exists>t. map_of props k = Some t
                 \<and> fst (inferSchema H (Suc n) ?\<sigma>a (JRef b)) = Inr t
                 \<and> properties t \<noteq> None \<and> required t = Some (map fst eb)"
      if b: "v = JRef b \<and> b \<noteq> a \<and> b \<notin> visited \<sigma> \<and> heap \<sigma> b = HObj eb" for b eb
    proof -
      have rb: "inferSchema H (Suc n) ?\<sigma>a (JRef b) = (Inr t, ?\<sigma>a)" using r b by simp
      have "properties t \<noteq> None \<and> required t = Some (map fst eb)"
        by (rule inferSchema_object_full [OF _ _ rb]) (use b in simp_all)
      then show ?thesis using t rb by simp
    qed
    show ?thesis using 1 2 by blast
  qed
  then have pr: "\<forall>(k, v)\<in>set es. k \<noteq> ''__proto__'' \<longrightarrow>
               (v = JRef a \<longrightarrow>
                  map_of props k = Some (Schema (Some ''object'') None None None None None))
             \<and> (\<forall>b eb. v = JRef b \<and> b \<noteq> a \<and> b \<notin> visited \<sigma> \<and> heap \<sigma> b = HObj eb \<longrightarrow>
                  (\<exists>t. map_of props k = Some t
                     \<and> fst (inferSchema H (Suc n) ?\<sigma>a (JRef b)) = Inr t
                     \<and> properties t \<noteq> None \<and> required t = Some (map fst eb)))"
    by blast
  have res: "inferSchema H (Suc (Suc n)) \<sigma> (JRef a)
             = (Inr (Schema (Some ''object'') None None (Some props) (Some (map fst es)) None), \<sigma>)"
    using run by (simp add: object_schema_def)
  show ?thesis
    by (intro exI [of _ props] conjI, rule res, rule pr, intro allI impI, erule arr)
qed

lemma self_reference_example:
  "inferSchema example_host 3
     \<lparr>heap = store [(0, HObj [(''self'', JRef 0), (''x'', JRef 1), (''y'', JRef 1)]),
                     (1, HObj [(''n'', JNum (Fin 5))])],
      visited = {}\<rparr> (JRef 0)
   = (Inr (Schema (Some ''object'') None None
        (Some [(''self'', Schema (Some ''object'') None None None None None),
               (''x'', Schema (Some ''object'') None None
                         (Some [(''n'', Schema (Some ''integer'') None None None None None)])
                         (Some [''n'']) None),
               (''y'', Schema (Some ''object'') None None
                         (Some [(''n'', Schema (Some ''integer'') None None None None None)])
                         (Some [''n'']) None)])
        (Some [''self'', ''x'', ''y'']) None),
      \<lparr>heap = store [(0, HObj [(''self'', JRef 0), (''x'', JRef 1), (''y'', JRef 1)]),
                      (1, HObj [(''n'', JNum (Fin 5))])],
       visited = {}\<rparr>)"
  using self_reference_degraded_shared_object_full
          [of "\<lparr>heap = store [(0, HObj [(''self'', JRef 0), (''x'', JRef 1), (''y'', JRef 1)]),
                                (1, HObj [(''n'', JNum (Fin 5))])],
                 visited = {}\<rparr>"
              0 "[(''self'', JRef 0), (''x'', JRef 1), (''y'', JRef 1)]" example_host 1]
  by (simp add: store_def numeral_3_eq_3 js_set_def typed_def object_schema_def)

text \<open>
  An object with a property that references a self-containing array is never inferred:
  the array branch recurses without a guard, and the error passes through the loop over
  the entries.
\<close>

lemma object_entry_overflows:
  assumes obj: "heap \<sigma> a = HObj es" and fresh: "a \<notin> visited \<sigma>"
    and arr: "(k, JRef b) \<in> set es" and cyc: "heap \<sigma> b = HArr [JRef b]"
  shows "fst (inferSchema H n \<sigma> (JRef a)) = Inl RangeError"
proof (cases n)
  case 0
  then show ?thesis by simp
next
  case (Suc m)
  let ?\<sigma>a = "\<sigma>\<lparr>visited := insert a (visited \<sigma>)\<rparr>"
  obtain r \<sigma>' where run: "inferSchema H (Suc m) \<sigma> (JRef a) = (r, \<sigma>')"
    by (cases "inferSchema H (Suc m) \<sigma> (JRef a)")
  have "r = Inl RangeError"
  proof (rule ccontr)
    assume "r \<noteq> Inl RangeError"
    then obtain s where "r = Inr s" using not_RangeError by blast
    then have "inferSchema H (Suc m) \<sigma> (JRef a) = (Inr s, \<sigma>')" using run by simp
    then have "\<exists>ss. list_all2 (\<lambda>e s. inferSchema H m ?\<sigma>a (snd e) = (Inr s, ?\<sigma>a)) es ss"
      unfolding inferSchema_object_iff [OF obj fresh] by blast
    then obtain ss where ss: "list_all2 (\<lambda>e s. inferSchema H m ?\<sigma>a (snd e) = (Inr s, ?\<sigma>a)) es ss"
      by blast
    obtain i where i: "i < length es" and ei: "es ! i = (k, JRef b)"
      using arr by (auto simp: in_set_conv_nth)
    have "inferSchema H m ?\<sigma>a (snd (es ! i)) = (Inr (ss ! i), ?\<sigma>a)"
      using ss i by (simp add: list_all2_conv_all_nth)
    then have "inferSchema H m ?\<sigma>a (JRef b) = (Inr (ss ! i), ?\<sigma>a)" using ei by simp
    moreover have "inferSchema H m ?\<sigma>a (JRef b) = (Inl RangeError, ?\<sigma>a)"
      by (rule array_cycle_overflows) (simp add: cyc)
    ultimately show False by simp
  qed
  then show ?thesis using run Suc by simp
qed

text \<open>
  C4 (where the code leaves the claim): an object with a property that references the
  object itself and another property that references an array containing itself is never
  inferred, whatever the size of the stack, because the array branch has no cycle guard;
  and a self-reference held under the own key \<^verbatim>\<open>__proto__\<close> is not degraded to
  \<^verbatim>\<open>{type:"object"}\<close> but dropped: \<^verbatim>\<open>properties\<close> is empty and \<^verbatim>\<open>required\<close>
  lists the key.
\<close>
theorem C4_self_reference_defeated_by_array_cycle_and_proto_key:
  "(heap \<sigma> a = HObj es \<and> a \<notin> visited \<sigma> \<and> (k, JRef a) \<in> set es
      \<and> (k', JRef b) \<in> set es \<and> heap \<sigma> b = HArr [JRef b]
      \<longrightarrow> fst (inferSchema H n \<sigma> (JRef a)) = Inl RangeError)
   \<and> (heap \<sigma> a = HObj [(''__proto__'', JRef a)] \<and> a \<notin> visited \<sigma>
      \<longrightarrow> inferSchema H (Suc (Suc n)) \<sigma> (JRef a)
          = (Inr (Schema (Some ''object'') None None (Some []) (Some [''__proto__'']) None), \<sigma>))"
proof (intro conjI impI)
  assume "heap \<sigma> a = HObj es \<and> a \<notin> visited \<sigma> \<and> (k, JRef a) \<in> set es
      \<and> (k', JRef b) \<in> set es \<and> heap \<sigma> b = HArr [JRef b]"
  then show "fst (inferSchema H n \<sigma> (JRef a)) = Inl RangeError"
    using object_entry_overflows [of \<sigma> a es k' b H n] by blast
next
  assume a: "heap \<sigma> a = HObj [(''__proto__'', JRef a)] \<and> a \<notin> visited \<sigma>"
  have undo: "\<sigma>\<lparr>visited := insert a (visited \<sigma>) - {a}\<rparr> = \<sigma>"
    using a by (simp add: Diff_insert_absorb)
  show "inferSchema H (Suc (Suc n)) \<sigma> (JRef a)
          = (Inr (Schema (Some ''object'') None None (Some []) (Some [''__proto__'']) None), \<sigma>)"
    using a undo by (simp add: js_set_def object_schema_def)
qed

theorem C4_witness:
  "(\<forall>n. fst (inferSchema_default example_host n
                (store [(0, HObj [(''self'', JRef 0), (''arr'', JRef 1)]), (1, HArr [JRef 1])])
                (JRef 0)) = Inl RangeError)
   \<and> fst (inferSchema_default example_host 2 (store [(0, HObj [(''__proto__'', JRef 0)])]) (JRef 0))
     = Inr (Schema (Some ''object'') None None (Some []) (Some [''__proto__'']) None)"
proof -
  have 1: "fst (inferSchema_default example_host n
                (store [(0, HObj [(''self'', JRef 0), (''arr'', JRef 1)]), (1, HArr [JRef 1])])
                (JRef 0)) = Inl RangeError" for n
    using C4_self_reference_defeated_by_array_cycle_and_proto_key
            [of "\<lparr>heap = store [(0, HObj [(''self'', JRef 0), (''arr'', JRef 1)]), (1, HArr [JRef 1])],
                   visited = {}\<rparr>"
                0 "[(''self'', JRef 0), (''arr'', JRef 1)]" "''self''" "''arr''" 1 example_host n]
    by (simp add: inferSchema_default_def store_def)
  have 2: "fst (inferSchema_default example_host 2 (store [(0, HObj [(''__proto__'', JRef 0)])]) (JRef 0))
     = Inr (Schema (Some ''object'') None None (Some []) (Some [''__proto__'']) None)"
    by (simp add: inferSchema_default_def store_def numeral_2_eq_2 js_set_def object_schema_def typed_def)
  show ?thesis using 1 2 by blast
qed

subsection \<open>The required list and the keys of properties\<close>

lemma required_matches_delete_type: "required_matches s \<Longrightarrow> required_matches (delete_type s)"
  by (cases s) auto

lemma required_matches_props:
  "required_matches s \<Longrightarrow> properties s = Some ps \<Longrightarrow> v \<in> snd ` set ps \<Longrightarrow> required_matches v"
  by (cases s) auto

lemma required_matches_keys:
  "required_matches s \<Longrightarrow> set (required_of s) = dom (properties_of s)"
  by (cases s) (auto simp: required_of_def properties_of_def dom_map_of_conv_image_fst
                     split: option.splits)

lemma dom_foldl_map_add: "dom (foldl (++) m ms) = dom m \<union> \<Union> (dom ` set ms)"
  by (induction ms arbitrary: m) auto

lemma required_matches_unifySchemas:
  assumes "\<forall>s\<in>set schemas. required_matches s \<and> own_keys_ok s"
  shows "required_matches (unifySchemas schemas)"
proof (cases schemas)
  case Nil
  then show ?thesis by (simp add: unifySchemas_def empty_schema_def)
next
  case (Cons s0 rest)
  show ?thesis
  proof (cases "\<exists>t. new_Set (map type schemas) = [t]")
    case False
    then have "unifySchemas schemas = anyOf_schema schemas"
      using Cons by (intro unifySchemas_anyOf) auto
    then show ?thesis using assms by (simp add: anyOf_schema_def)
  next
    case True
    then obtain t where t: "new_Set (map type schemas) = [t]" by blast
    show ?thesis
    proof (cases "t = Some ''object''")
      case False
      have "unifySchemas schemas = delete_type s0"
        using Cons t False by (rule unifySchemas_base)
      moreover have "required_matches s0" using assms Cons by simp
      ultimately show ?thesis by (simp add: required_matches_delete_type)
    next
      case True
      let ?mp = "fst (foldl merge_step ([], []) schemas)"
      let ?rq = "snd (foldl merge_step ([], []) schemas)"
      have u: "unifySchemas schemas = object_schema ?mp ?rq"
        using t True by (intro unifySchemas_object) simp
      have "snd (foldl merge_step ([], new_Set []) schemas)
              = new_Set ([] @ concat (map required_of schemas))"
        by (rule merge_step_required)
      then have rq: "?rq = new_Set (concat (map required_of schemas))"
        by (simp add: new_Set_def)
      have ok: "\<forall>s\<in>set schemas. own_keys_ok s" using assms by simp
      have "map_of ?mp = foldl (++) Map.empty (map properties_of schemas)"
        using merge_step_properties [OF ok, of "[]" "[]"] by simp
      then have "dom (map_of ?mp) = (\<Union>s\<in>set schemas. dom (properties_of s))"
        by (simp add: dom_foldl_map_add)
      then have keys: "fst ` set ?mp = (\<Union>s\<in>set schemas. dom (properties_of s))"
        by (simp add: dom_map_of_conv_image_fst)
      have "set ?rq = (\<Union>s\<in>set schemas. set (required_of s))"
        by (simp add: rq set_new_Set)
      also have "\<dots> = (\<Union>s\<in>set schemas. dom (properties_of s))"
        using assms required_matches_keys by simp
      finally have eq: "set ?rq = fst ` set ?mp" using keys by simp
      have d: "distinct ?rq" by (simp add: rq distinct_new_Set)
      have sub: "snd ` set ?mp
                   \<subseteq> (\<Union>s\<in>set schemas. case properties s of None \<Rightarrow> {} | Some ps \<Rightarrow> snd ` set ps)"
        using merge_step_values [of "([], [])" schemas] by simp
      have "required_matches v" if v: "v \<in> snd ` set ?mp" for v
      proof -
        from v sub obtain s where s: "s \<in> set schemas"
          and vs: "v \<in> (case properties s of None \<Rightarrow> {} | Some ps \<Rightarrow> snd ` set ps)" by blast
        then obtain ps where "properties s = Some ps" and "v \<in> snd ` set ps"
          by (cases "properties s") auto
        then show ?thesis using assms s required_matches_props by blast
      qed
      then show ?thesis using eq d by (simp add: u object_schema_def)
    qed
  qed
qed

lemma keys_Object_assign:
  assumes "distinct (map fst src)" and "''__proto__'' \<notin> fst ` set src"
  shows "fst ` set (Object_assign t src) = fst ` set t \<union> fst ` set src"
proof -
  have "dom (map_of (Object_assign t src)) = dom (map_of t ++ map_of src)"
    using map_of_Object_assign [OF assms, of t] by simp
  then show ?thesis by (simp add: dom_map_of_conv_image_fst Un_commute)
qed

text \<open>
  On a store without a key \<^verbatim>\<open>__proto__\<close> the invariant holds of every fragment that
  \<^verbatim>\<open>inferSchema\<close> returns, and of every fragment nested in it.
\<close>
lemma inferSchema_required_matches:
  assumes "heap_keys_ok (heap \<sigma>)" and "inferSchema H n \<sigma> v = (Inr s, \<sigma>')"
  shows "required_matches s"
  using assms
proof (induction n arbitrary: \<sigma> v s \<sigma>')
  case 0
  then show ?case by simp
next
  case (Suc n)
  show ?case
  proof (cases "\<exists>a. v = JRef a")
    case False
    then have "(\<exists>t. s = typed t) \<or> (\<exists>str. s = infer_string H str)"
      using Suc.prems by (intro inferSchema_not_ref) auto
    then show ?thesis by (auto simp: typed_def infer_string_def Let_def)
  next
    case True
    then obtain a where v: "v = JRef a" by blast
    have run: "inferSchema H (Suc n) \<sigma> (JRef a) = (Inr s, \<sigma>')" using Suc.prems v by simp
    show ?thesis
    proof (cases "heap \<sigma> a")
      case (HArr elems)
      show ?thesis
      proof (cases "elems = []")
        case True
        then have "s = array_schema empty_schema"
          using run inferSchema_empty_array [of \<sigma> a H n] HArr by simp
        then show ?thesis by (simp add: array_schema_def empty_schema_def)
      next
        case False
        from run have "\<sigma>' = \<sigma> \<and> (\<exists>ss. list_all2 (\<lambda>v s. inferSchema H n \<sigma> v = (Inr s, \<sigma>)) elems ss
                           \<and> s = array_schema (unifySchemas ss))"
          by (simp only: inferSchema_array_iff [OF HArr False])
        then obtain ss where ss: "list_all2 (\<lambda>v s. inferSchema H n \<sigma> v = (Inr s, \<sigma>)) elems ss"
          and s: "s = array_schema (unifySchemas ss)"
          by blast
        have "\<forall>x\<in>set ss. required_matches x \<and> own_keys_ok x"
          using ss
        proof (rule list_all2_results)
          fix w x assume "inferSchema H n \<sigma> w = (Inr x, \<sigma>)"
          then show "required_matches x \<and> own_keys_ok x"
            using Suc.IH [OF Suc.prems(1)] inferSchema_own_keys_ok by blast
        qed
        then have "required_matches (unifySchemas ss)" by (rule required_matches_unifySchemas)
        then show ?thesis by (simp add: s array_schema_def)
      qed
    next
      case (HObj es)
      show ?thesis
      proof (cases "a \<in> visited \<sigma>")
        case True
        then have "s = typed ''object''"
          using run inferSchema_visited_object [OF HObj True, of H n] by simp
        then show ?thesis by (simp add: typed_def)
      next
        case False
        let ?\<sigma>a = "\<sigma>\<lparr>visited := insert a (visited \<sigma>)\<rparr>"
        from run have "\<sigma>' = \<sigma> \<and>
               (\<exists>ss. list_all2 (\<lambda>e s. inferSchema H n ?\<sigma>a (snd e) = (Inr s, ?\<sigma>a)) es ss
                    \<and> s = object_schema (Object_assign [] (zip (map fst es) ss)) (map fst es))"
          by (simp only: inferSchema_object_iff [OF HObj False])
        then obtain ss where ss: "list_all2 (\<lambda>e s. inferSchema H n ?\<sigma>a (snd e) = (Inr s, ?\<sigma>a)) es ss"
          and s: "s = object_schema (Object_assign [] (zip (map fst es) ss)) (map fst es)"
          by blast
        have hk: "heap_keys_ok (heap ?\<sigma>a)" using Suc.prems(1) by simp
        have vals: "\<forall>x\<in>set ss. required_matches x"
          using ss
        proof (rule list_all2_results)
          fix w x assume "inferSchema H n ?\<sigma>a (snd w) = (Inr x, ?\<sigma>a)"
          then show "required_matches x" using Suc.IH [OF hk] by blast
        qed
        have es: "distinct (map fst es)" "''__proto__'' \<notin> fst ` set es"
          using Suc.prems(1) HObj by (auto simp: heap_keys_ok_def)
        have len: "length es = length ss" using ss by (rule list_all2_lengthD)
        then have zk: "map fst (zip (map fst es) ss) = map fst es" by simp
        have zs: "fst ` set (zip (map fst es) ss) = fst ` set es"
          using arg_cong [OF zk, of set] by simp
        have zd: "distinct (map fst (zip (map fst es) ss))" using es(1) zk by simp
        have zp: "''__proto__'' \<notin> fst ` set (zip (map fst es) ss)" using es(2) zs by simp
        have "fst ` set (Object_assign [] (zip (map fst es) ss)) = fst ` set (zip (map fst es) ss)"
          using keys_Object_assign [OF zd zp, of "[]"] by simp
        then have keys: "set (map fst es) = fst ` set (Object_assign [] (zip (map fst es) ss))"
          using zs by simp
        have "snd ` set (Object_assign [] (zip (map fst es) ss)) \<subseteq> set ss"
        proof -
          have z: "snd ` set (zip (map fst es) ss) \<subseteq> set ss" by (auto dest: set_zip_rightD)
          have "snd ` set (Object_assign [] (zip (map fst es) ss))
                  \<subseteq> snd ` set (zip (map fst es) ss)"
            using Object_assign_values [of "[]" "zip (map fst es) ss"] by simp
          then show ?thesis using z by blast
        qed
        then have "\<forall>x\<in>snd ` set (Object_assign [] (zip (map fst es) ss)). required_matches x"
          using vals by blast
        then show ?thesis using keys es(1) by (simp add: s object_schema_def)
      qed
    qed
  qed
qed


text \<open>
  C3 (the key \<^verbatim>\<open>__proto__\<close>): for an object with an own property \<^verbatim>\<open>__proto__\<close>, as
  \<^verbatim>\<open>JSON.parse('{"__proto__": 1}')\<close> builds it, the fragment that \<^verbatim>\<open>inferSchema\<close>
  returns lists \<^verbatim>\<open>__proto__\<close> in \<^verbatim>\<open>required\<close>, and its \<^verbatim>\<open>properties\<close> has no such
  key: the assignment \<^verbatim>\<open>schema.properties[key] = ...\<close> set the prototype instead.
\<close>
theorem C3_proto_key_required_but_not_property:
  assumes "heap \<sigma> a = HObj es" and "a \<notin> visited \<sigma>" and "(''__proto__'', v) \<in> set es"
    and "inferSchema H n \<sigma> (JRef a) = (Inr s, \<sigma>')"
  shows "\<exists>props req. properties s = Some props \<and> required s = Some req
           \<and> ''__proto__'' \<in> set req \<and> ''__proto__'' \<notin> fst ` set props"
proof (cases n)
  case 0
  then show ?thesis using assms(4) by simp
next
  case (Suc m)
  then have "inferSchema H (Suc m) \<sigma> (JRef a) = (Inr s, \<sigma>')" using assms(4) by simp
  then have "\<exists>ss. s = object_schema (Object_assign [] (zip (map fst es) ss)) (map fst es)"
    unfolding inferSchema_object_iff [OF assms(1,2)] by blast
  then obtain ss where s: "s = object_schema (Object_assign [] (zip (map fst es) ss)) (map fst es)"
    by blast
  have "''__proto__'' \<notin> fst ` set (Object_assign [] (zip (map fst es) ss))"
    by (rule proto_free_Object_assign) simp
  moreover have "''__proto__'' \<in> set (map fst es)" using assms(3) by force
  ultimately show ?thesis by (simp add: s object_schema_def)
qed

theorem C3_witness:
  "fst (inferSchema_default example_host 2 (store [(0, HObj [(''__proto__'', JNum (Fin 1))])]) (JRef 0))
     = Inr (Schema (Some ''object'') None None (Some []) (Some [''__proto__'']) None)"
  using C3_proto_key_required_but_not_property
          [of "\<lparr>heap = store [(0, HObj [(''__proto__'', JNum (Fin 1))])], visited = {}\<rparr>" 0
              "[(''__proto__'', JNum (Fin 1))]" "JNum (Fin 1)" example_host 2]
  by (simp add: inferSchema_default_def store_def numeral_2_eq_2 js_set_def object_schema_def)

subsection \<open>Termination without array cycles\<close>

text \<open>A call that returns on some stack returns the same on every larger stack.\<close>

lemma fuel_mono:
  "inferSchema H n \<sigma> v = (Inr s, \<sigma>') \<Longrightarrow> n \<le> m \<Longrightarrow> inferSchema H m \<sigma> v = (Inr s, \<sigma>')"
proof (induction n arbitrary: m \<sigma> v s \<sigma>')
  case 0
  then show ?case by simp
next
  case (Suc n)
  then obtain m' where m: "m = Suc m'" and le: "n \<le> m'" by (cases m) auto
  have IH: "inferSchema H m' \<tau> w = (Inr x, \<tau>')" if "inferSchema H n \<tau> w = (Inr x, \<tau>')" for \<tau> w x \<tau>'
    using Suc.IH [OF that le] .
  show ?case
  proof (cases "\<exists>a. v = JRef a")
    case False
    then show ?thesis using Suc.prems(1) unfolding m by (cases v) auto
  next
    case True
    then obtain a where v: "v = JRef a" by blast
    have run: "inferSchema H (Suc n) \<sigma> (JRef a) = (Inr s, \<sigma>')" using Suc.prems v by simp
    show ?thesis
    proof (cases "heap \<sigma> a")
      case (HArr elems)
      show ?thesis
      proof (cases "elems = []")
        case True
        then show ?thesis using run HArr unfolding m v by simp
      next
        case False
        from run have "\<sigma>' = \<sigma> \<and> (\<exists>ss. list_all2 (\<lambda>v s. inferSchema H n \<sigma> v = (Inr s, \<sigma>)) elems ss
                           \<and> s = array_schema (unifySchemas ss))"
          by (simp only: inferSchema_array_iff [OF HArr False])
        then obtain ss where e: "\<sigma>' = \<sigma>"
          and ss: "list_all2 (\<lambda>v s. inferSchema H n \<sigma> v = (Inr s, \<sigma>)) elems ss"
          and s: "s = array_schema (unifySchemas ss)"
          by blast
        have "list_all2 (\<lambda>v s. inferSchema H m' \<sigma> v = (Inr s, \<sigma>)) elems ss"
          using ss by (rule list_all2_mono) (rule IH)
        then show ?thesis unfolding m v inferSchema_array_iff [OF HArr False] using e s by blast
      qed
    next
      case (HObj es)
      show ?thesis
      proof (cases "a \<in> visited \<sigma>")
        case True
        then show ?thesis using run HObj unfolding m v by simp
      next
        case False
        let ?\<sigma>a = "\<sigma>\<lparr>visited := insert a (visited \<sigma>)\<rparr>"
        from run have "\<sigma>' = \<sigma> \<and>
               (\<exists>ss. list_all2 (\<lambda>e s. inferSchema H n ?\<sigma>a (snd e) = (Inr s, ?\<sigma>a)) es ss
                    \<and> s = object_schema (Object_assign [] (zip (map fst es) ss)) (map fst es))"
          by (simp only: inferSchema_object_iff [OF HObj False])
        then obtain ss where e: "\<sigma>' = \<sigma>"
          and ss: "list_all2 (\<lambda>e s. inferSchema H n ?\<sigma>a (snd e) = (Inr s, ?\<sigma>a)) es ss"
          and s: "s = object_schema (Object_assign [] (zip (map fst es) ss)) (map fst es)"
          by blast
        have "list_all2 (\<lambda>e s. inferSchema H m' ?\<sigma>a (snd e) = (Inr s, ?\<sigma>a)) es ss"
          using ss by (rule list_all2_mono) (rule IH)
        then show ?thesis unfolding m v inferSchema_object_iff [OF HObj False] using e s by blast
      qed
    qed
  qed
qed

lemma returns_all:
  assumes "\<forall>e\<in>set es. \<exists>n s. inferSchema H n \<sigma> (f e) = (Inr s, \<sigma>)"
  shows "\<exists>N. \<forall>e\<in>set es. \<exists>s. inferSchema H N \<sigma> (f e) = (Inr s, \<sigma>)"
  using assms
proof (induction es)
  case Nil
  show ?case by simp
next
  case (Cons e es)
  then obtain N where N: "\<forall>e\<in>set es. \<exists>s. inferSchema H N \<sigma> (f e) = (Inr s, \<sigma>)" by auto
  obtain n s where n: "inferSchema H n \<sigma> (f e) = (Inr s, \<sigma>)" using Cons.prems by auto
  have "\<exists>s. inferSchema H (max n N) \<sigma> (f x) = (Inr s, \<sigma>)" if x: "x \<in> set (e # es)" for x
  proof (cases "x = e")
    case True
    then show ?thesis using fuel_mono [OF n, of "max n N"] by auto
  next
    case False
    then obtain s' where "inferSchema H N \<sigma> (f x) = (Inr s', \<sigma>)" using N x by auto
    then show ?thesis using fuel_mono [of H N \<sigma> "f x" s' \<sigma> "max n N"] by auto
  qed
  then show ?case by blast
qed


lemma inferSchema_objectI:
  assumes "heap \<sigma> a = HObj es" and "a \<notin> visited \<sigma>"
    and "list_all2 (\<lambda>e s. inferSchema H n (\<sigma>\<lparr>visited := insert a (visited \<sigma>)\<rparr>) (snd e)
                            = (Inr s, \<sigma>\<lparr>visited := insert a (visited \<sigma>)\<rparr>)) es ss"
  shows "inferSchema H (Suc n) \<sigma> (JRef a)
           = (Inr (object_schema (Object_assign [] (zip (map fst es) ss)) (map fst es)), \<sigma>)"
  unfolding inferSchema_object_iff [OF assms(1,2)] using assms(3) by blast

lemma inferSchema_arrayI:
  assumes "heap \<sigma> a = HArr elems" and "elems \<noteq> []"
    and "list_all2 (\<lambda>v s. inferSchema H n \<sigma> v = (Inr s, \<sigma>)) elems ss"
  shows "inferSchema H (Suc n) \<sigma> (JRef a) = (Inr (array_schema (unifySchemas ss)), \<sigma>)"
  unfolding inferSchema_array_iff [OF assms(1,2)] using assms(3) by blast

lemma live_insert:
  assumes "h a = HObj es" and "es \<noteq> []" and "a \<notin> V" and "finite (live h V)"
  shows "finite (live h (insert a V)) \<and> card (live h (insert a V)) < card (live h V)"
proof -
  have eq: "live h (insert a V) = live h V - {a}" by (auto simp: live_def)
  have mem: "a \<in> live h V" using assms(1,2,3) by (simp add: live_def)
  have c: "card (live h V - {a}) < card (live h V)" using assms(4) mem by (rule card_Diff1_less)
  have f: "finite (live h V - {a})" using assms(4) by simp
  show ?thesis unfolding eq using f c by blast
qed

lemma inferSchema_terminates_aux:
  assumes rk: "arrays_ranked h rk"
  shows "finite (live h V) \<Longrightarrow>
         \<exists>n s. inferSchema H n \<lparr>heap = h, visited = V\<rparr> v = (Inr s, \<lparr>heap = h, visited = V\<rparr>)"
proof (induction "card (live h V)" arbitrary: V v rule: less_induct)
  case less
  let ?\<sigma> = "\<lparr>heap = h, visited = V\<rparr>"
  have other: "\<exists>n s. inferSchema H n ?\<sigma> w = (Inr s, ?\<sigma>)" if w: "\<And>a xs. w = JRef a \<Longrightarrow> h a \<noteq> HArr xs" for w
  proof (cases "\<exists>a. w = JRef a")
    case False
    then have "\<exists>s. inferSchema H (Suc 0) ?\<sigma> w = (Inr s, ?\<sigma>)" by (cases w) auto
    then show ?thesis by blast
  next
    case True
    then obtain a where wa: "w = JRef a" by blast
    then obtain es where es: "h a = HObj es" using w [OF wa] by (cases "h a") auto
    show ?thesis
    proof (cases "a \<in> V")
      case True
      then have "inferSchema H (Suc 0) ?\<sigma> (JRef a) = (Inr (typed ''object''), ?\<sigma>)"
        using es by simp
      then show ?thesis using wa by blast
    next
      case False
      let ?\<sigma>a = "\<lparr>heap = h, visited = insert a V\<rparr>"
      have each: "\<forall>e\<in>set es. \<exists>n s. inferSchema H n ?\<sigma>a (snd e) = (Inr s, ?\<sigma>a)"
      proof
        fix e assume e: "e \<in> set es"
        then have ne: "es \<noteq> []" by auto
        have "finite (live h (insert a V)) \<and> card (live h (insert a V)) < card (live h V)"
          using es ne False less.prems by (rule live_insert)
        then show "\<exists>n s. inferSchema H n ?\<sigma>a (snd e) = (Inr s, ?\<sigma>a)"
          using less.hyps by blast
      qed
      obtain N where N: "\<forall>e\<in>set es. \<exists>s. inferSchema H N ?\<sigma>a (snd e) = (Inr s, ?\<sigma>a)"
        using returns_all [where f = snd, OF each] by blast
      obtain ss where ss: "list_all2 (\<lambda>e s. inferSchema H N ?\<sigma>a (snd e) = (Inr s, ?\<sigma>a)) es ss"
        using list_all2_exists [OF N] by blast
      have "inferSchema H (Suc N) ?\<sigma> (JRef a)
              = (Inr (object_schema (Object_assign [] (zip (map fst es) ss)) (map fst es)), ?\<sigma>)"
        by (rule inferSchema_objectI) (use es False ss in simp_all)
      then show ?thesis using wa by blast
    qed
  qed
  have arr: "\<exists>n s. inferSchema H n ?\<sigma> (JRef a) = (Inr s, ?\<sigma>)" if "h a = HArr xs" for a xs
    using that
  proof (induction "rk a" arbitrary: a xs rule: less_induct)
    case inner: less
    show ?case
    proof (cases "xs = []")
      case True
      then have "inferSchema H (Suc 0) ?\<sigma> (JRef a) = (Inr (array_schema empty_schema), ?\<sigma>)"
        using inner.prems by simp
      then show ?thesis by blast
    next
      case False
      have each: "\<forall>x\<in>set xs. \<exists>n s. inferSchema H n ?\<sigma> x = (Inr s, ?\<sigma>)"
      proof
        fix x assume x: "x \<in> set xs"
        show "\<exists>n s. inferSchema H n ?\<sigma> x = (Inr s, ?\<sigma>)"
        proof (cases "\<exists>b ys. x = JRef b \<and> h b = HArr ys")
          case True
          then obtain b ys where b: "x = JRef b" "h b = HArr ys" by blast
          then have "rk b < rk a" using rk inner.prems x by (auto simp: arrays_ranked_def)
          then show ?thesis using inner.hyps b by blast
        next
          case False
          then show ?thesis by (intro other) auto
        qed
      qed
      obtain N where N: "\<forall>x\<in>set xs. \<exists>s. inferSchema H N ?\<sigma> x = (Inr s, ?\<sigma>)"
        using returns_all [where f = "\<lambda>x. x", OF each] by blast
      obtain ss where ss: "list_all2 (\<lambda>v s. inferSchema H N ?\<sigma> v = (Inr s, ?\<sigma>)) xs ss"
        using list_all2_exists [OF N] by blast
      have "inferSchema H (Suc N) ?\<sigma> (JRef a) = (Inr (array_schema (unifySchemas ss)), ?\<sigma>)"
        by (rule inferSchema_arrayI) (use inner.prems False ss in simp_all)
      then show ?thesis by blast
    qed
  qed
  show ?case
  proof (cases "\<exists>a xs. v = JRef a \<and> h a = HArr xs")
    case True
    then show ?thesis using arr by blast
  next
    case False
    then show ?thesis by (intro other) auto
  qed
qed

text \<open>
  On a store with finitely many non-empty objects and no cycle through arrays only,
  \<^verbatim>\<open>inferSchema\<close> returns a fragment on a stack that is large enough, whatever the
  cycles through objects: the guard of the object branch stops each of them.
\<close>

lemma inferSchema_terminates:
  assumes "finite (live h {})" and "arrays_ranked h rk"
  shows "\<exists>n s. inferSchema_default H n h v = (Inr s, \<lparr>heap = h, visited = {}\<rparr>)"
  unfolding inferSchema_default_def using assms by (intro inferSchema_terminates_aux)

end
